theory Spec2Isabelle
  imports Complex_Main "HOL-Library.Log_Nat" "HOL-Library.Product_Lexorder"
begin

section \<open>Strings\<close>

text \<open>
  A JavaScript string is a sequence of code units; a \<^typ>\<open>char\<close> stands for a code unit
  below 256. \<open>\d\<close> in a regular expression without the \<open>u\<close> flag is an ASCII digit, and the
  white space that \<open>trim\<close> and \<open>parseFloat\<close> skip is WhiteSpace and LineTerminator of
  ECMA-262 (TAB, LF, VT, FF, CR, SP and NBSP among the code units below 256).
\<close>

definition is_digit :: "char \<Rightarrow> bool" where
  "is_digit c = (48 \<le> (of_char c :: nat) \<and> (of_char c :: nat) \<le> 57)"

definition is_ws :: "char \<Rightarrow> bool" where
  "is_ws c = ((of_char c :: nat) \<in> {9, 10, 11, 12, 13, 32, 160})"

definition trim :: "string \<Rightarrow> string" where
  "trim s = rev (dropWhile is_ws (rev (dropWhile is_ws s)))"

definition endsWith :: "string \<Rightarrow> string \<Rightarrow> bool" where
  "endsWith s suf = (length suf \<le> length s \<and> drop (length s - length suf) s = suf)"

definition digits_val :: "string \<Rightarrow> nat" where
  "digits_val ds = foldl (\<lambda>a c. 10 * a + (of_char c - 48)) 0 ds"

text \<open>\<open>String(n)\<close> for an integer \<open>n\<close>, and \<open>padStart(2, '0')\<close>.\<close>

fun digits_of :: "nat \<Rightarrow> string" where
  "digits_of n = (if n < 10 then [char_of (48 + n)]
                  else digits_of (n div 10) @ [char_of (48 + n mod 10)])"

declare digits_of.simps [simp del]

definition String_int :: "int \<Rightarrow> string" where
  "String_int i = (if i < 0 then CHR ''-'' # digits_of (nat (- i)) else digits_of (nat i))"

definition String_num :: "int option \<Rightarrow> string" where
  "String_num v = (case v of None \<Rightarrow> ''NaN'' | Some i \<Rightarrow> String_int i)"

definition padStart2 :: "string \<Rightarrow> string" where
  "padStart2 s = replicate (2 - length s) (CHR ''0'') @ s"

section \<open>Regular expressions of the block\<close>

text \<open>\<^verbatim>\<open>/^\d+(\.\d+)?$/\<close>, tested in \<open>isExcelSerialDate\<close>.\<close>

definition serial_re :: "string \<Rightarrow> bool" where
  "serial_re s = (takeWhile is_digit s \<noteq> [] \<and>
     (case dropWhile is_digit s of
        [] \<Rightarrow> True
      | c # fp \<Rightarrow> c = CHR ''.'' \<and> fp \<noteq> [] \<and> list_all is_digit fp))"


text \<open>\<^verbatim>\<open>/^\d{1,2}\/\d{1,2}\/\d{4}$/\<close>, the \<open>datePattern\<close> of \<open>getColumnDataType\<close>.\<close>

definition datePattern :: "string \<Rightarrow> bool" where
  "datePattern s = (length (takeWhile is_digit s) \<in> {1, 2} \<and>
     (case dropWhile is_digit s of
        [] \<Rightarrow> False
      | c # r \<Rightarrow> c = CHR ''/'' \<and> length (takeWhile is_digit r) \<in> {1, 2} \<and>
          (case dropWhile is_digit r of
             [] \<Rightarrow> False
           | d # y \<Rightarrow> d = CHR ''/'' \<and> length y = 4 \<and> list_all is_digit y)))"

section \<open>Number values\<close>

text \<open>
  A Number is an IEEE 754 binary64 value: NaN, an infinity, or a finite value, kept as the
  rational it denotes (the two zeros are one). \<open>fl\<close> rounds a rational to the nearest
  binary64 value, ties to even, with gradual underflow and overflow to an infinity: an
  arithmetic operation of the source is the exact operation followed by \<open>fl\<close>.
\<close>

datatype jsnum = NaN | PInf | NInf | Fin rat

definition ilog2 :: "rat \<Rightarrow> int" where
  "ilog2 x = (case quotient_of x of (p, q) \<Rightarrow>
     let d = int (floorlog 2 (nat p)) - int (floorlog 2 (nat q))
     in if 2 powi d \<le> x then d else d - 1)"

definition round_even :: "rat \<Rightarrow> int" where
  "round_even r = (let n = \<lfloor>r\<rfloor>; f = r - of_int n in
     if f < 1 / 2 then n else if 1 / 2 < f then n + 1 else if even n then n else n + 1)"

definition fl :: "rat \<Rightarrow> jsnum" where
  "fl x = (if x = 0 then Fin 0 else
     let e = max (ilog2 \<bar>x\<bar>) (- 1022);
         u = 2 powi (e - 52);
         y = of_int (round_even (\<bar>x\<bar> / u)) * u
     in if 2 powi 1024 \<le> y then (if x < 0 then NInf else PInf)
        else Fin (if x < 0 then - y else y))"

fun js_neg :: "jsnum \<Rightarrow> jsnum" where
  "js_neg NaN = NaN"
| "js_neg PInf = NInf"
| "js_neg NInf = PInf"
| "js_neg (Fin x) = Fin (- x)"

fun js_add :: "jsnum \<Rightarrow> jsnum \<Rightarrow> jsnum" where
  "js_add NaN _ = NaN"
| "js_add _ NaN = NaN"
| "js_add PInf NInf = NaN"
| "js_add NInf PInf = NaN"
| "js_add PInf _ = PInf"
| "js_add _ PInf = PInf"
| "js_add NInf _ = NInf"
| "js_add _ NInf = NInf"
| "js_add (Fin x) (Fin y) = fl (x + y)"

definition js_sub :: "jsnum \<Rightarrow> jsnum \<Rightarrow> jsnum" where
  "js_sub a b = js_add a (js_neg b)"

fun js_sgn :: "jsnum \<Rightarrow> int option" where
  "js_sgn NaN = None"
| "js_sgn PInf = Some 1"
| "js_sgn NInf = Some (- 1)"
| "js_sgn (Fin x) = Some (if 0 < x then 1 else if x < 0 then - 1 else 0)"

fun js_mul :: "jsnum \<Rightarrow> jsnum \<Rightarrow> jsnum" where
  "js_mul (Fin x) (Fin y) = fl (x * y)"
| "js_mul a b = (case (js_sgn a, js_sgn b) of
      (Some s, Some t) \<Rightarrow> if s * t = 0 then NaN else if 0 < s * t then PInf else NInf
    | _ \<Rightarrow> NaN)"

fun js_lt :: "jsnum \<Rightarrow> jsnum \<Rightarrow> bool" where
  "js_lt NaN _ = False"
| "js_lt _ NaN = False"
| "js_lt _ NInf = False"
| "js_lt PInf _ = False"
| "js_lt NInf _ = True"
| "js_lt _ PInf = True"
| "js_lt (Fin x) (Fin y) = (x < y)"

fun js_ge :: "jsnum \<Rightarrow> jsnum \<Rightarrow> bool" where
  "js_ge NaN _ = False"
| "js_ge _ NaN = False"
| "js_ge a b = (\<not> js_lt a b)"

fun isNaN :: "jsnum \<Rightarrow> bool" where
  "isNaN NaN = True"
| "isNaN _ = False"

fun isFinite :: "jsnum \<Rightarrow> bool" where
  "isFinite (Fin _) = True"
| "isFinite _ = False"

subsection \<open>parseFloat\<close>

text \<open>
  \<open>parseFloat\<close> skips leading white space and reads the longest prefix that is a
  StrDecimalLiteral: an optional sign, then \<open>Infinity\<close> or decimal digits with an optional
  fraction and an optional exponent. What follows the prefix is ignored; with no such
  prefix the result is NaN.
\<close>

definition exponent_part :: "string \<Rightarrow> int" where
  "exponent_part r = (case r of
      [] \<Rightarrow> 0
    | c # r1 \<Rightarrow>
        if c = CHR ''e'' \<or> c = CHR ''E'' then
          (case r1 of
             [] \<Rightarrow> 0
           | s # r2 \<Rightarrow>
               if s = CHR ''-'' then - int (digits_val (takeWhile is_digit r2))
               else if s = CHR ''+'' then int (digits_val (takeWhile is_digit r2))
               else int (digits_val (takeWhile is_digit r1)))
        else 0)"

definition unsigned_literal :: "string \<Rightarrow> jsnum" where
  "unsigned_literal u =
     (if take 8 u = ''Infinity'' then PInf else
      let ip = takeWhile is_digit u;
          r = dropWhile is_digit u;
          (fp, r2) = (case r of
                        [] \<Rightarrow> ([], [])
                      | c # r1 \<Rightarrow> if c = CHR ''.''
                                  then (takeWhile is_digit r1, dropWhile is_digit r1)
                                  else ([], r))
      in if ip = [] \<and> fp = [] then NaN
         else fl (of_nat (digits_val (ip @ fp)) * 10 powi (exponent_part r2 - int (length fp))))"

definition parseFloat :: "string \<Rightarrow> jsnum" where
  "parseFloat s = (case dropWhile is_ws s of
      [] \<Rightarrow> NaN
    | c # u \<Rightarrow> if c = CHR ''-'' then js_neg (unsigned_literal u)
               else if c = CHR ''+'' then unsigned_literal u
               else unsigned_literal (c # u))"

section \<open>Time values and the calendar\<close>

text \<open>
  Time values are milliseconds since 1970-01-01T00:00:00Z. The functions below are those of
  ECMA-262 (Day, DayFromYear, YearFromTime, MonthFromTime, DateFromTime, MakeDay, MakeTime,
  MakeDate, TimeClip). \<open>YearFromTime\<close> is the largest year whose first day is not after the
  given one; no year is further than one from the estimate it starts from.
\<close>

definition msPerDay :: int where
  "msPerDay = 86400000"

definition Day :: "int \<Rightarrow> int" where
  "Day t = t div msPerDay"

definition DayFromYear :: "int \<Rightarrow> int" where
  "DayFromYear y = 365 * (y - 1970) + (y - 1969) div 4 - (y - 1901) div 100 + (y - 1601) div 400"

definition YearFromDay :: "int \<Rightarrow> int" where
  "YearFromDay d = (let g = 1970 + (d * 400) div 146097 in
     if DayFromYear (g + 1) \<le> d then g + 1
     else if DayFromYear g \<le> d then g
     else g - 1)"

definition InLeapYear :: "int \<Rightarrow> int" where
  "InLeapYear y = DayFromYear (y + 1) - DayFromYear y - 365"

definition month_starts :: "int \<Rightarrow> int list" where
  "month_starts l = [0, 31, 59 + l, 90 + l, 120 + l, 151 + l, 181 + l, 212 + l, 243 + l,
                     273 + l, 304 + l, 334 + l]"

definition YearFromTime :: "int \<Rightarrow> int" where
  "YearFromTime t = YearFromDay (Day t)"

definition DayWithinYear :: "int \<Rightarrow> int" where
  "DayWithinYear t = Day t - DayFromYear (YearFromTime t)"

definition MonthFromTime :: "int \<Rightarrow> int" where
  "MonthFromTime t = int (length (filter (\<lambda>s. s \<le> DayWithinYear t)
                             (month_starts (InLeapYear (YearFromTime t))))) - 1"

definition DateFromTime :: "int \<Rightarrow> int" where
  "DateFromTime t = DayWithinYear t
     - month_starts (InLeapYear (YearFromTime t)) ! nat (MonthFromTime t) + 1"

definition MakeDay :: "int \<Rightarrow> int \<Rightarrow> int \<Rightarrow> int" where
  "MakeDay year month date = (let ym = year + month div 12; mn = month mod 12 in
     DayFromYear ym + month_starts (InLeapYear ym) ! nat mn + date - 1)"

definition MakeTime :: "int \<Rightarrow> int \<Rightarrow> int \<Rightarrow> int \<Rightarrow> int" where
  "MakeTime hour minute sec ms = hour * 3600000 + minute * 60000 + sec * 1000 + ms"

definition MakeDate :: "int \<Rightarrow> int \<Rightarrow> int" where
  "MakeDate day time = day * msPerDay + time"

text \<open>
  A Date object holds a time value or NaN (an invalid date): \<open>None\<close> is NaN. \<open>TimeClip\<close>
  refuses what is not finite or beyond 8.64e15 and cuts a fraction off towards zero.
\<close>

type_synonym date = "int option"

fun TimeClip :: "jsnum \<Rightarrow> date" where
  "TimeClip (Fin x) = (if 8640000000000000 < \<bar>x\<bar> then None
                       else Some (if 0 \<le> x then \<lfloor>x\<rfloor> else \<lceil>x\<rceil>))"
| "TimeClip _ = None"

definition getTime :: "date \<Rightarrow> jsnum" where
  "getTime d = (case d of None \<Rightarrow> NaN | Some t \<Rightarrow> Fin (of_int t))"

text \<open>
  The host: its time zone, as the offset of local time from UTC in force at a UTC time
  value (\<open>utc_offset\<close>) and the one chosen for a local time value (\<open>local_offset\<close>); its
  collation (\<open>localeCompare\<close>); and how it reads a date from a string that is not in the
  ISO format (\<open>Date_parse\<close>), which ECMA-262 leaves to the implementation.
\<close>

record host =
  utc_offset :: "int \<Rightarrow> int"
  local_offset :: "int \<Rightarrow> int"
  localeCompare :: "string \<Rightarrow> string \<Rightarrow> int"
  Date_parse :: "string \<Rightarrow> date"

definition LocalTime :: "host \<Rightarrow> int \<Rightarrow> int" where
  "LocalTime h t = t + utc_offset h t"

definition UTC :: "host \<Rightarrow> int \<Rightarrow> int" where
  "UTC h t = t - local_offset h t"

text \<open>\<open>new Date(year, month, date)\<close>, \<open>new Date(value)\<close>, the getters and \<open>setHours\<close>.\<close>

definition Date_ymd :: "host \<Rightarrow> int \<Rightarrow> int \<Rightarrow> int \<Rightarrow> date" where
  "Date_ymd h year month date =
     TimeClip (Fin (of_int (UTC h (MakeDate (MakeDay year month date) (MakeTime 0 0 0 0)))))"

definition Date_value :: "jsnum \<Rightarrow> date" where
  "Date_value v = TimeClip v"

definition getMonth :: "host \<Rightarrow> date \<Rightarrow> int option" where
  "getMonth h d = map_option (\<lambda>t. MonthFromTime (LocalTime h t)) d"

definition getDate :: "host \<Rightarrow> date \<Rightarrow> int option" where
  "getDate h d = map_option (\<lambda>t. DateFromTime (LocalTime h t)) d"

definition getFullYear :: "host \<Rightarrow> date \<Rightarrow> int option" where
  "getFullYear h d = map_option (\<lambda>t. YearFromTime (LocalTime h t)) d"


section \<open>Date and time normalizer\<close>

text \<open>
  \<open>formatExcelDate\<close> and \<open>createDateTimeFromExcel\<close> begin with the same three statements
  (\<open>excelEpoch\<close>, \<open>days\<close>, \<open>date\<close>); \<open>serial_date\<close> is that common beginning.
\<close>

definition serial_date :: "host \<Rightarrow> string \<Rightarrow> date" where
  "serial_date h serialDate =
     (let excelEpoch = Date_ymd h 1900 0 1;
          days = js_sub (parseFloat serialDate) (Fin 2)
      in Date_value (js_add (getTime excelEpoch)
           (js_mul (js_mul (js_mul (js_mul days (Fin 24)) (Fin 60)) (Fin 60)) (Fin 1000))))"

definition formatExcelDate :: "host \<Rightarrow> string \<Rightarrow> string" where
  "formatExcelDate h serialDate =
     (let date = serial_date h serialDate;
          month = padStart2 (String_num (map_option (\<lambda>m. m + 1) (getMonth h date)));
          day = padStart2 (String_num (getDate h date));
          year = String_num (getFullYear h date)
      in month @ ''/'' @ day @ ''/'' @ year)"

definition isExcelSerialDate :: "string \<Rightarrow> bool" where
  "isExcelSerialDate v =
     (if \<not> serial_re (trim v) then False
      else let num = parseFloat v in \<not> isNaN num \<and> js_ge num (Fin 1) \<and> js_lt num (Fin 100000))"

definition formatCellValue :: "host \<Rightarrow> string \<Rightarrow> string" where
  "formatCellValue h v =
     (if v = [] then []
      else if isExcelSerialDate v then formatExcelDate h v
      else v)"

text \<open>
  An argument that may be \<open>undefined\<close> is an option: \<open>None\<close> and the empty string are the
  falsy ones.
\<close>

definition falsy :: "string option \<Rightarrow> bool" where
  "falsy v = (v = None \<or> v = Some [])"

definition formatDateTimeValue :: "host \<Rightarrow> string option \<Rightarrow> string option \<Rightarrow> string" where
  "formatDateTimeValue h dateValue timeValue =
     (case dateValue of
        None \<Rightarrow> []
      | Some d \<Rightarrow>
          if d = [] then []
          else let formattedDate = (if isExcelSerialDate d then formatExcelDate h d else d)
               in (case timeValue of
                     None \<Rightarrow> formattedDate
                   | Some t \<Rightarrow> if t \<noteq> [] \<and> trim t \<noteq> [] then formattedDate @ '' '' @ t
                              else formattedDate))"

definition getTimeColumnForDate :: "string \<Rightarrow> string list \<Rightarrow> string option" where
  "getTimeColumnForDate dateColumn allColumns =
     (if endsWith dateColumn ''Date''
      then (let timeColumn = take (length dateColumn - 4) dateColumn @ ''Time''
            in if timeColumn \<in> set allColumns then Some timeColumn else None)
      else None)"

text \<open>\<open>toLowerCase\<close> and \<open>includes\<close> (\<open>str_includes\<close>) on strings of code units below 256.\<close>

definition toLowerCase :: "string \<Rightarrow> string" where
  "toLowerCase s = map (\<lambda>c. let n = (of_char c :: nat) in
       if (65 \<le> n \<and> n \<le> 90) \<or> (192 \<le> n \<and> n \<le> 222 \<and> n \<noteq> 215) then char_of (n + 32) else c) s"

fun str_includes :: "string \<Rightarrow> string \<Rightarrow> bool" where
  "str_includes [] sub = (sub = [])"
| "str_includes (c # s) sub = (take (length sub) (c # s) = sub \<or> str_includes s sub)"

section \<open>Records and the event filter\<close>

text \<open>
  A record of the fetched array is a JSON object of string cells: the list of its entries in
  the order \<open>Object.keys\<close> lists them. \<open>map_of row column\<close> is the cell of the record for a
  column, \<open>None\<close> when the record has no such key; \<open>or_empty\<close> is \<open>row[column] || ''\<close>
  for it.
\<close>

type_synonym row = "(string \<times> string) list"

definition or_empty :: "string option \<Rightarrow> string" where
  "or_empty v = (case v of None \<Rightarrow> [] | Some s \<Rightarrow> s)"









section \<open>Column type inference and sorting\<close>

datatype dataType = DateT | NumberT | TextT

definition getColumnDataType :: "row list \<Rightarrow> string \<Rightarrow> dataType" where
  "getColumnDataType data column =
     (if data = [] then TextT
      else let sampleValues =
                 take 3 (filter (\<lambda>v. v \<noteq> None \<and> v \<noteq> Some [])
                           (map (\<lambda>row. map_of row column) data))
           in if sampleValues = [] then TextT
              else if list_all (\<lambda>v. datePattern (or_empty v)) sampleValues then DateT
              else if list_all (\<lambda>v. let num = parseFloat (or_empty v)
                                     in \<not> isNaN num \<and> isFinite num) sampleValues
                   then NumberT
              else TextT)"

datatype direction = Asc | Desc

definition compareRows ::
  "host \<Rightarrow> dataType \<Rightarrow> string \<Rightarrow> direction \<Rightarrow> row \<Rightarrow> row \<Rightarrow> jsnum" where
  "compareRows h dataType column direction a b =
     (let valueA = or_empty (map_of a column);
          valueB = or_empty (map_of b column)
      in if valueA = [] \<and> valueB = [] then Fin 0
         else if valueA = [] then (if direction = Asc then Fin 1 else Fin (- 1))
         else if valueB = [] then (if direction = Asc then Fin (- 1) else Fin 1)
         else let comparison =
                    (case dataType of
                       DateT \<Rightarrow> js_sub (getTime (Date_parse h valueA)) (getTime (Date_parse h valueB))
                     | NumberT \<Rightarrow> js_sub (parseFloat valueA) (parseFloat valueB)
                     | TextT \<Rightarrow> Fin (of_int (localeCompare h (toLowerCase valueA)
                                                               (toLowerCase valueB))))
              in if direction = Desc then js_neg comparison else comparison)"

text \<open>
  \<open>Array.prototype.sort\<close> is stable, and reads a comparator's NaN as 0. It is modelled by
  the stable insertion sort: for a consistent comparator this is the one order the language
  prescribes; for an inconsistent one the language leaves the order to the implementation.
\<close>

fun insert_by :: "('a \<Rightarrow> 'a \<Rightarrow> jsnum) \<Rightarrow> 'a \<Rightarrow> 'a list \<Rightarrow> 'a list" where
  "insert_by cmp x [] = [x]"
| "insert_by cmp x (y # ys) =
     (if js_lt (Fin 0) (cmp x y) then y # insert_by cmp x ys else x # y # ys)"

definition Array_sort :: "('a \<Rightarrow> 'a \<Rightarrow> jsnum) \<Rightarrow> 'a list \<Rightarrow> 'a list" where
  "Array_sort cmp xs = foldr (insert_by cmp) xs []"

definition sortData :: "host \<Rightarrow> row list \<Rightarrow> string \<Rightarrow> direction \<Rightarrow> row list" where
  "sortData h data column direction =
     (let dataType = getColumnDataType data column
      in Array_sort (compareRows h dataType column direction) data)"

section \<open>Pagination and rendering\<close>

text \<open>\<open>data.slice(start, end)\<close>, with the relative indices of \<open>Array.prototype.slice\<close>.\<close>

definition slice :: "'a list \<Rightarrow> int \<Rightarrow> int \<Rightarrow> 'a list" where
  "slice xs start fin =
     (let len = int (length xs);
          k = (if start < 0 then max (len + start) 0 else min start len);
          final = (if fin < 0 then max (len + fin) 0 else min fin len)
      in take (nat (final - k)) (drop (nat k) xs))"

definition getPaginatedData :: "'a list \<Rightarrow> int \<Rightarrow> int \<Rightarrow> 'a list" where
  "getPaginatedData data page itemsPerPage =
     (let startIndex = (page - 1) * itemsPerPage;
          endIndex = startIndex + itemsPerPage
      in slice data startIndex endIndex)"

text \<open>
  The text of the cells of one rendered row, and of the rows of a page. (The class that
  marks a row of today and the arrows in the headers are presentation only and are not
  modelled.)
\<close>

definition renderCell :: "host \<Rightarrow> string list \<Rightarrow> row \<Rightarrow> string \<Rightarrow> string" where
  "renderCell h allColumns row column =
     (case getTimeColumnForDate column allColumns of
        Some timeColumn \<Rightarrow>
          (let dateValue = or_empty (map_of row column);
               timeValue = or_empty (map_of row timeColumn)
           in formatDateTimeValue h (Some dateValue) (Some timeValue))
      | None \<Rightarrow> formatCellValue h (or_empty (map_of row column)))"

definition renderTableBody :: "host \<Rightarrow> row list \<Rightarrow> string list \<Rightarrow> string list \<Rightarrow> string list list" where
  "renderTableBody h data columns allColumns =
     map (\<lambda>row. map (renderCell h allColumns row) columns) data"

text \<open>
  The display columns of \<open>createTable\<close>: the configured columns, or all columns of the
  first record (\<open>chosenColumns\<close>), without a Time column whose Date column is among them.
\<close>

definition chosenColumns :: "string list \<Rightarrow> string list option \<Rightarrow> string list" where
  "chosenColumns allColumns columns =
     (case columns of
        None \<Rightarrow> allColumns
      | Some cs \<Rightarrow> if cs \<noteq> [] then cs else allColumns)"

definition displayColumns :: "string list \<Rightarrow> string list option \<Rightarrow> string list" where
  "displayColumns allColumns columns =
     (let chosen = chosenColumns allColumns columns
      in filter (\<lambda>column.
           if endsWith column ''Time''
           then (let dateColumn = take (length column - 4) column @ ''Date''
                 in dateColumn \<notin> set chosen)
           else True) chosen)"

text \<open>
  One table: the arguments the handlers close over (\<open>data\<close>, the original array, and
  \<open>columns\<close>), the fields of \<open>paginationState\<close>, and what is on the page: the rendered
  rows, the two buttons and the page label. \<open>totalPages\<close> is the constant of the last
  \<open>updatePaginationControls\<close>, which the handlers of the buttons it made close over.
\<close>

record table =
  data :: "row list"
  columns :: "string list"
  allColumns :: "string list"
  currentPage :: int
  itemsPerPage :: int
  currentData :: "row list"
  sortColumn :: "string option"
  sortDirection :: direction
  tbody :: "string list list"
  totalPages :: int
  prevDisabled :: bool
  nextDisabled :: bool
  pageInfo :: string

text \<open>
  \<open>Math.ceil(length / itemsPerPage)\<close>. \<open>itemsPerPage\<close> is never zero: it starts at 10 and
  the select offers 10, 25, 50 and 100.
\<close>

definition updatePaginationControls :: "table \<Rightarrow> table" where
  "updatePaginationControls s =
     (let total = \<lceil>rat_of_nat (length (currentData s)) / rat_of_int (itemsPerPage s)\<rceil>
      in s\<lparr>totalPages := total,
            prevDisabled := (currentPage s = 1),
            pageInfo := ''Page '' @ String_int (currentPage s) @ '' of '' @ String_int total,
            nextDisabled := (currentPage s \<ge> total)\<rparr>)"

definition renderPage :: "host \<Rightarrow> table \<Rightarrow> table" where
  "renderPage h s =
     s\<lparr>tbody := renderTableBody h
         (getPaginatedData (currentData s) (currentPage s) (itemsPerPage s))
         (columns s) (allColumns s)\<rparr>"

definition createTable :: "host \<Rightarrow> row list \<Rightarrow> string list option \<Rightarrow> table option" where
  "createTable h dat cols =
     (case dat of
        [] \<Rightarrow> None
      | first # _ \<Rightarrow>
          let allCols = map fst first;
              display = displayColumns allCols cols;
              eventStartDateColumn =
                find (\<lambda>col. str_includes (toLowerCase col) ''event start date''
                            \<or> col = ''Event Start Date'') display;
              sortedData = (case eventStartDateColumn of
                              None \<Rightarrow> dat
                            | Some c \<Rightarrow> sortData h dat c Asc)
          in Some (updatePaginationControls (renderPage h
               \<lparr>data = dat, columns = display, allColumns = allCols,
                currentPage = 1, itemsPerPage = 10, currentData = sortedData,
                sortColumn = eventStartDateColumn, sortDirection = Asc,
                tbody = [], totalPages = 0, prevDisabled = False, nextDisabled = False,
                pageInfo = []\<rparr>)))"

text \<open>The handlers: a click on the header of a column, on a button, and a change of the select.\<close>

datatype perPage = P10 | P25 | P50 | P100

fun perPage_value :: "perPage \<Rightarrow> int" where
  "perPage_value P10 = 10"
| "perPage_value P25 = 25"
| "perPage_value P50 = 50"
| "perPage_value P100 = 100"

datatype event = HeaderClick nat | PrevClick | NextClick | ItemsPerPageChange perPage

definition sortClick :: "host \<Rightarrow> table \<Rightarrow> nat \<Rightarrow> table" where
  "sortClick h s index =
     (let column = columns s ! index;
          dir = (if sortColumn s = Some column
                 then (if sortDirection s = Asc then Desc else Asc)
                 else Asc);
          sortedData = sortData h (data s) column dir
      in updatePaginationControls (renderPage h
           (s\<lparr>sortDirection := dir, sortColumn := Some column,
              currentData := sortedData, currentPage := 1\<rparr>)))"

definition prevClick :: "host \<Rightarrow> table \<Rightarrow> table" where
  "prevClick h s =
     (if currentPage s > 1
      then updatePaginationControls (renderPage h (s\<lparr>currentPage := currentPage s - 1\<rparr>))
      else s)"

definition nextClick :: "host \<Rightarrow> table \<Rightarrow> table" where
  "nextClick h s =
     (if currentPage s < totalPages s
      then updatePaginationControls (renderPage h (s\<lparr>currentPage := currentPage s + 1\<rparr>))
      else s)"

definition itemsPerPageChange :: "host \<Rightarrow> table \<Rightarrow> perPage \<Rightarrow> table" where
  "itemsPerPageChange h s v =
     updatePaginationControls (renderPage h
       (s\<lparr>itemsPerPage := perPage_value v, currentPage := 1\<rparr>))"

text \<open>
  A disabled button fires no click, and there is a header to click for each display column
  only.
\<close>

fun handle :: "host \<Rightarrow> table \<Rightarrow> event \<Rightarrow> table" where
  "handle h s (HeaderClick index) = (if index < length (columns s) then sortClick h s index else s)"
| "handle h s PrevClick = (if prevDisabled s then s else prevClick h s)"
| "handle h s NextClick = (if nextDisabled s then s else nextClick h s)"
| "handle h s (ItemsPerPageChange v) = itemsPerPageChange h s v"

text \<open>The states a table reaches from its construction by the events of its user.\<close>

inductive reachable :: "host \<Rightarrow> row list \<Rightarrow> string list option \<Rightarrow> table \<Rightarrow> bool"
  for h :: host and dat :: "row list" and cols :: "string list option" where
  init: "createTable h dat cols = Some s \<Longrightarrow> reachable h dat cols s"
| step: "reachable h dat cols s \<Longrightarrow> reachable h dat cols (handle h s e)"

section \<open>Hosts for examples\<close>

text \<open>
  A host in UTC that collates by code units and reads no date from a string that is not in
  the ISO format; and the same host in a zone that was 4:56:16 behind UTC until
  1914-11-23 and is five hours behind it since, as Bogota is.
\<close>

fun unit_compare :: "string \<Rightarrow> string \<Rightarrow> int" where
  "unit_compare [] [] = 0"
| "unit_compare [] (b # bs) = - 1"
| "unit_compare (a # as) [] = 1"
| "unit_compare (a # as) (b # bs) =
     (if (of_char a :: nat) < of_char b then - 1
      else if (of_char b :: nat) < of_char a then 1
      else unit_compare as bs)"

definition utc_host :: host where
  "utc_host = \<lparr>utc_offset = (\<lambda>t. 0), local_offset = (\<lambda>t. 0),
               localeCompare = unit_compare, Date_parse = (\<lambda>s. None)\<rparr>"

definition bogota_host :: host where
  "bogota_host =
     \<lparr>utc_offset = (\<lambda>t. if t < - 1739041424000 then - 17776000 else - 18000000),
      local_offset = (\<lambda>t. if t < - 1739059200000 then - 17776000 else - 18000000),
      localeCompare = unit_compare, Date_parse = (\<lambda>s. None)\<rparr>"

section \<open>Definitions that follow the specification\<close>

text \<open>
  The Number that the decimal numeral \<open>ip.fp\<close> denotes: its exact value, rounded to binary64.
\<close>

definition decimal :: "string \<Rightarrow> string \<Rightarrow> jsnum" where
  "decimal ip fp = fl (of_nat (digits_val (ip @ fp)) / 10 ^ length fp)"

text \<open>
  The samples of a column: its first three values, in record order, that are present and
  not empty.
\<close>

definition samples :: "row list \<Rightarrow> string \<Rightarrow> string list" where
  "samples dat column =
     take 3 (filter (\<lambda>v. v \<noteq> []) (List.map_filter (\<lambda>row. map_of row column) dat))"

text \<open>
  The calendar date (year, month from 1, day of the month) of a day number, counted from
  1970-01-01, and its form \<open>MM/DD/YYYY\<close>. \<open>epoch1900\<close> is the time value of
  1900-01-01T00:00:00Z, the start of day \<open>- 25567\<close>.
\<close>

definition civil :: "int \<Rightarrow> int \<times> int \<times> int" where
  "civil d = (let y = YearFromDay d;
                  w = d - DayFromYear y;
                  starts = month_starts (InLeapYear y);
                  m = int (length (filter (\<lambda>s. s \<le> w) starts)) - 1
              in (y, m + 1, w - starts ! nat m + 1))"

definition format_MDY :: "int \<Rightarrow> string" where
  "format_MDY d = (case civil d of (y, m, day) \<Rightarrow>
     padStart2 (String_int m) @ ''/'' @ padStart2 (String_int day) @ ''/'' @ String_int y)"

definition epoch1900 :: int where
  "epoch1900 = - 2208988800000"

text \<open>
  The number of pages of a table, and the invariant of its pagination state: the original
  array is kept and is not empty, the current array has its length, and the page, the
  constant \<open>totalPages\<close> and the two buttons agree.
\<close>

definition pages :: "table \<Rightarrow> int" where
  "pages s = \<lceil>rat_of_nat (length (currentData s)) / rat_of_int (itemsPerPage s)\<rceil>"

definition inv :: "row list \<Rightarrow> table \<Rightarrow> bool" where
  "inv dat s = (dat \<noteq> [] \<and> data s = dat \<and> length (currentData s) = length dat \<and>
     itemsPerPage s \<in> {10, 25, 50, 100} \<and>
     totalPages s = pages s \<and> 1 \<le> currentPage s \<and> currentPage s \<le> totalPages s \<and>
     prevDisabled s = (currentPage s = 1) \<and> nextDisabled s = (totalPages s \<le> currentPage s))"

text \<open>
  A comparator is consistent on a set when the order it gives, NaN and 0 meaning "not
  after", is total and transitive there.
\<close>

definition cmp_le :: "('a \<Rightarrow> 'a \<Rightarrow> jsnum) \<Rightarrow> 'a \<Rightarrow> 'a \<Rightarrow> bool" where
  "cmp_le cmp a b = (\<not> js_lt (Fin 0) (cmp a b))"

definition consistent :: "('a \<Rightarrow> 'a \<Rightarrow> jsnum) \<Rightarrow> 'a set \<Rightarrow> bool" where
  "consistent cmp S = ((\<forall>a\<in>S. \<forall>b\<in>S. cmp_le cmp a b \<or> cmp_le cmp b a) \<and>
     (\<forall>a\<in>S. \<forall>b\<in>S. \<forall>c\<in>S. cmp_le cmp a b \<longrightarrow> cmp_le cmp b c \<longrightarrow> cmp_le cmp a c))"





text \<open>
  The date of the specification for a serial number \<open>v\<close>: 1900-01-01 plus \<open>\<lfloor>v\<rfloor> - 2\<close> days,
  as \<open>MM/DD/YYYY\<close>.
\<close>

definition spec_serialToDate :: "rat \<Rightarrow> string" where
  "spec_serialToDate v = format_MDY (MakeDay 1900 0 1 + (\<lfloor>v\<rfloor> - 2))"








section \<open>Arrays for examples\<close>


definition rows_ba :: "row list" where
  "rows_ba = [[(''name'', ''b'')], [(''name'', ''a'')]]"

definition rows_b3 :: "row list" where
  "rows_b3 = [[(''k'', ''b'')], [(''k'', ''3'')], [(''k'', ''20'')], [(''k'', ''100'')]]"




definition rows_late_time :: "row list" where
  "rows_late_time =
     [[(''Name'', ''A''), (''Event End Date'', ''45000'')],
      [(''Name'', ''B''), (''Event End Date'', ''45000''), (''Event End Time'', ''04:00'')]]"

section \<open>Rounding to binary64\<close>

lemma ilog2_bounds:
  assumes "0 < x"
  shows "2 powi ilog2 x \<le> x \<and> x < 2 powi (ilog2 x + 1)"
proof -
  obtain p q where pq: "quotient_of x = (p, q)" by force
  have q: "0 < q" using quotient_of_denom_pos[OF pq] .
  have x: "x = of_int p / of_int q" using quotient_of_div[OF pq] .
  have p: "0 < p" using assms q x by (simp add: zero_less_divide_iff)
  define a where "a = floorlog 2 (nat p)"
  define b where "b = floorlog 2 (nat q)"
  have pa: "2 ^ (a - 1) \<le> nat p \<and> nat p < 2 ^ a"
    unfolding a_def using floorlog_bounds[of "nat p" 2] p by simp
  have qb: "2 ^ (b - 1) \<le> nat q \<and> nat q < 2 ^ b"
    unfolding b_def using floorlog_bounds[of "nat q" 2] q by simp
  have a1: "1 \<le> a" using pa p by (cases a) auto
  have b1: "1 \<le> b" using qb q by (cases b) auto
  have P1: "(2::rat) ^ (a - 1) \<le> of_int p"
  proof -
    have "(of_nat (2 ^ (a - 1)) :: rat) \<le> of_nat (nat p)" using pa by (simp only: of_nat_le_iff)
    then show ?thesis using p by simp
  qed
  have P2: "of_int p < (2::rat) ^ a"
  proof -
    have "(of_nat (nat p) :: rat) < of_nat (2 ^ a)" using pa by (simp only: of_nat_less_iff)
    then show ?thesis using p by simp
  qed
  have Q1: "(2::rat) ^ (b - 1) \<le> of_int q"
  proof -
    have "(of_nat (2 ^ (b - 1)) :: rat) \<le> of_nat (nat q)" using qb by (simp only: of_nat_le_iff)
    then show ?thesis using q by simp
  qed
  have Q2: "of_int q < (2::rat) ^ b"
  proof -
    have "(of_nat (nat q) :: rat) < of_nat (2 ^ b)" using qb by (simp only: of_nat_less_iff)
    then show ?thesis using q by simp
  qed
  have qpos: "(0::rat) < of_int q" using q by simp
  have A: "2 powi (int a - int b + 1) = (2::rat) ^ a / 2 ^ (b - 1)"
  proof -
    have e: "int a - int b + 1 = int a - int (b - 1)" using b1 by simp
    have "2 powi (int a - int (b - 1)) = (2::rat) powi int a / 2 powi int (b - 1)"
      by (rule power_int_diff) simp
    then show ?thesis unfolding e by simp
  qed
  have B: "2 powi (int a - int b - 1) = (2::rat) ^ (a - 1) / 2 ^ b"
  proof -
    have e: "int a - int b - 1 = int (a - 1) - int b" using a1 by simp
    have "2 powi (int (a - 1) - int b) = (2::rat) powi int (a - 1) / 2 powi int b"
      by (rule power_int_diff) simp
    then show ?thesis unfolding e by simp
  qed
  have up: "x < 2 powi (int a - int b + 1)"
  proof -
    have "x < 2 ^ a / of_int q" unfolding x using P2 qpos by (simp add: divide_strict_right_mono)
    also have "\<dots> \<le> 2 ^ a / 2 ^ (b - 1)" using Q1 by (simp add: frac_le)
    finally show ?thesis using A by simp
  qed
  have lo: "2 powi (int a - int b - 1) \<le> x"
  proof -
    have "(2::rat) ^ (a - 1) / 2 ^ b \<le> 2 ^ (a - 1) / of_int q" using Q2 qpos by (simp add: frac_le)
    also have "\<dots> \<le> x" unfolding x using P1 qpos by (simp add: divide_right_mono)
    finally show ?thesis using B by simp
  qed
  show ?thesis
  proof (cases "2 powi (int a - int b) \<le> x")
    case True
    then have "ilog2 x = int a - int b" by (simp add: ilog2_def pq a_def b_def)
    then show ?thesis using True up by simp
  next
    case False
    then have "ilog2 x = int a - int b - 1" by (simp add: ilog2_def pq a_def b_def)
    then show ?thesis using False lo by simp
  qed
qed

lemma ilog2_eqI:
  assumes "2 powi e \<le> x" "x < 2 powi (e + 1)"
  shows "ilog2 x = e"
proof -
  have "(0::rat) < 2 powi e" by (simp add: zero_less_power_int)
  then have x: "0 < x" using assms(1) by linarith
  note b = ilog2_bounds[OF x]
  have "2 powi e < (2::rat) powi (ilog2 x + 1)" using assms(1) b by linarith
  then have 1: "e < ilog2 x + 1"
    using power_int_increasing[of "ilog2 x + 1" e "2::rat"] by (cases "e < ilog2 x + 1") auto
  have "2 powi ilog2 x < (2::rat) powi (e + 1)" using assms(2) b by linarith
  then have 2: "ilog2 x < e + 1"
    using power_int_increasing[of "e + 1" "ilog2 x" "2::rat"] by (cases "ilog2 x < e + 1") auto
  show ?thesis using 1 2 by simp
qed

lemma round_even_int [simp]: "round_even (of_int k) = k"
  by (simp add: round_even_def)

lemma round_even_eqI:
  assumes "of_int m - 1 / 2 < r" "r < of_int m + 1 / 2"
  shows "round_even r = m"
proof (cases "of_int m \<le> r")
  case True
  then have "\<lfloor>r\<rfloor> = m" using assms by (intro floor_unique) auto
  then show ?thesis using assms by (simp add: round_even_def)
next
  case False
  then have "\<lfloor>r\<rfloor> = m - 1" using assms by (intro floor_unique) auto
  then show ?thesis using assms False by (simp add: round_even_def)
qed

lemma fl_eqI:
  assumes "2 powi e \<le> \<bar>x\<bar>" "\<bar>x\<bar> < 2 powi (e + 1)" "- 1022 \<le> e"
    and "round_even (\<bar>x\<bar> / 2 powi (e - 52)) = m"
    and "of_int m * 2 powi (e - 52) < (2::rat) powi 1024"
  shows "fl x = Fin (if x < 0 then - (of_int m * 2 powi (e - 52)) else of_int m * 2 powi (e - 52))"
proof -
  have xne: "x \<noteq> 0"
  proof
    assume "x = 0"
    with assms(1) have "2 powi e \<le> (0::rat)" by simp
    moreover have "(0::rat) < 2 powi e" by (simp add: zero_less_power_int)
    ultimately show False by linarith
  qed
  have "ilog2 \<bar>x\<bar> = e" using assms(1,2) by (rule ilog2_eqI)
  then have e': "max (ilog2 \<bar>x\<bar>) (- 1022) = e" using assms(3) by simp
  have n: "\<not> 2 powi 1024 \<le> rat_of_int m * 2 powi (e - 52)"
    using assms(5) by (simp only: not_le)
  show ?thesis unfolding fl_def Let_def e' assms(4)
    by (simp only: xne n if_False)
qed

lemma fl_int:
  assumes "\<bar>k\<bar> < 2 ^ 53"
  shows "fl (of_int k) = Fin (of_int k)"
proof (cases "k = 0")
  case True
  then show ?thesis by (simp add: fl_def)
next
  case False
  define x :: rat where "x = of_int k"
  define e where "e = ilog2 \<bar>x\<bar>"
  have xpos: "0 < \<bar>x\<bar>" using False by (simp add: x_def)
  note b = ilog2_bounds[OF xpos, folded e_def]
  have ax: "\<bar>x\<bar> = of_int \<bar>k\<bar>" by (simp add: x_def)
  have "1 \<le> \<bar>x\<bar>" using False unfolding ax by (simp only: of_int_1_le_iff)
  then have "(2::rat) powi 0 < 2 powi (e + 1)" using b by simp
  then have e0: "0 \<le> e"
    using power_int_increasing[of "e + 1" 0 "2::rat"] by (cases "0 < e + 1") auto
  have x53: "\<bar>x\<bar> < 2 ^ 53" unfolding ax using assms by (simp only: of_int_less_numeral_power_cancel_iff)
  then have "(2::rat) powi e < 2 powi 53" using b by simp
  then have e53: "e < 53"
    using power_int_increasing[of 53 e "2::rat"] by (cases "e < 53") auto
  have u: "(2::rat) powi (e - 52) = 1 / 2 ^ nat (52 - e)"
    using e53 by (simp add: power_int_def inverse_eq_divide power_one_over)
  have d: "\<bar>x\<bar> / 2 powi (e - 52) = of_int (\<bar>k\<bar> * 2 ^ nat (52 - e))"
    unfolding u ax by simp
  have r: "round_even (\<bar>x\<bar> / 2 powi (e - 52)) = \<bar>k\<bar> * 2 ^ nat (52 - e)"
    unfolding d by (rule round_even_int)
  have y: "of_int (\<bar>k\<bar> * 2 ^ nat (52 - e)) * (2::rat) powi (e - 52) = \<bar>x\<bar>"
    unfolding u ax by simp
  have "(2::rat) ^ 53 \<le> 2 ^ 1024" by (rule power_increasing) simp_all
  then have lt: "of_int (\<bar>k\<bar> * 2 ^ nat (52 - e)) * (2::rat) powi (e - 52) < 2 powi 1024"
    unfolding y using x53 by simp
  have e22: "- 1022 \<le> e" using e0 by simp
  have "fl x = Fin (if x < 0 then - \<bar>x\<bar> else \<bar>x\<bar>)"
    using fl_eqI[OF conjunct1[OF b] conjunct2[OF b] e22 r lt] unfolding y .
  then show ?thesis by (simp add: x_def)
qed

lemma fl_evalI:
  assumes "2 powi e \<le> \<bar>x\<bar>" "\<bar>x\<bar> < 2 powi (e + 1)" "- 1022 \<le> e" "e \<le> 1022"
    and "of_int m - 1 / 2 < \<bar>x\<bar> / 2 powi (e - 52)" "\<bar>x\<bar> / 2 powi (e - 52) < of_int m + 1 / 2"
    and "y = (if x < 0 then - (of_int m * 2 powi (e - 52)) else of_int m * 2 powi (e - 52))"
  shows "fl x = Fin y"
proof -
  define u :: rat where "u = 2 powi (e - 52)"
  have upos: "0 < u" by (simp add: u_def zero_less_power_int)
  have r: "round_even (\<bar>x\<bar> / 2 powi (e - 52)) = m"
    using assms(5,6) by (rule round_even_eqI)
  have "2 powi ((e + 1) - (e - 52)) = (2::rat) powi (e + 1) / 2 powi (e - 52)"
    by (rule power_int_diff) simp
  then have q: "(2::rat) powi (e + 1) / u = 2 ^ 53" by (simp add: u_def)
  have "\<bar>x\<bar> / u < 2 powi (e + 1) / u"
    using assms(2) upos by (simp add: divide_strict_right_mono)
  then have "\<bar>x\<bar> / u < 2 ^ 53" using q by simp
  then have "of_int m - 1 / 2 < (2::rat) ^ 53" using assms(5)[folded u_def] by linarith
  then have "of_int m < (of_int (2 ^ 53 + 1) :: rat)" by simp
  then have m53: "m \<le> 2 ^ 53" by (simp only: of_int_less_iff)
  then have "(of_int m :: rat) \<le> of_int (2 ^ 53)" by (simp only: of_int_le_iff)
  then have "of_int m * u \<le> 2 ^ 53 * u" using upos by simp
  also have "2 ^ 53 * u = 2 powi (e + 1)" using q upos by (simp add: field_simps)
  also have "\<dots> < 2 powi 1024" using assms(4) by (intro power_int_strict_increasing) simp_all
  finally have lt: "of_int m * 2 powi (e - 52) < (2::rat) powi 1024" unfolding u_def .
  show ?thesis unfolding assms(7) by (rule fl_eqI[OF assms(1,2,3) r lt])
qed

lemma fl_numeral: "(numeral k :: int) < 2 ^ 53 \<Longrightarrow> fl (numeral k) = Fin (numeral k)"
  using fl_int[of "numeral k"] by simp

lemma fl_neg_numeral: "(numeral k :: int) < 2 ^ 53 \<Longrightarrow> fl (- numeral k) = Fin (- numeral k)"
  using fl_int[of "- numeral k"] by simp


lemma js_add_int:
  "\<bar>a + b\<bar> < 2 ^ 53 \<Longrightarrow> js_add (Fin (of_int a)) (Fin (of_int b)) = Fin (of_int (a + b))"
  using fl_int[of "a + b"] by simp

lemma js_sub_int:
  "\<bar>a - b\<bar> < 2 ^ 53 \<Longrightarrow> js_sub (Fin (of_int a)) (Fin (of_int b)) = Fin (of_int (a - b))"
  using fl_int[of "a - b"] by (simp add: js_sub_def)

lemma js_mul_int:
  "\<bar>a * b\<bar> < 2 ^ 53 \<Longrightarrow> js_mul (Fin (of_int a)) (Fin (of_int b)) = Fin (of_int (a * b))"
  using fl_int[of "a * b"] by simp













section \<open>Serial dates\<close>

lemma ws_not_digit: "is_ws c \<Longrightarrow> \<not> is_digit c"
  by (auto simp: is_ws_def is_digit_def)

lemma ws_not_special: "is_ws c \<Longrightarrow> c \<noteq> CHR ''.'' \<and> c \<noteq> CHR ''e'' \<and> c \<noteq> CHR ''E''"
  by (auto simp: is_ws_def)

lemma digit_not_special:
  "is_digit c \<Longrightarrow> \<not> is_ws c \<and> c \<noteq> CHR ''-'' \<and> c \<noteq> CHR ''+'' \<and> c \<noteq> CHR ''I''"
  by (auto simp: is_ws_def is_digit_def)

lemma dot_not_digit: "\<not> is_digit (CHR ''.'')"
  by (simp add: is_digit_def)

lemma trim_decomp:
  "\<exists>w. dropWhile is_ws s = trim s @ w \<and> list_all is_ws w"
proof -
  define u where "u = dropWhile is_ws s"
  have "rev u = takeWhile is_ws (rev u) @ dropWhile is_ws (rev u)" by simp
  then have "u = rev (dropWhile is_ws (rev u)) @ rev (takeWhile is_ws (rev u))"
    by (metis rev_append rev_rev_ident)
  moreover have "list_all is_ws (rev (takeWhile is_ws (rev u)))"
    by (simp add: list_all_iff) (meson set_takeWhileD)
  ultimately show ?thesis unfolding trim_def u_def by blast
qed

lemma serial_re_iff:
  "serial_re t \<longleftrightarrow> (\<exists>ip fp. ip \<noteq> [] \<and> list_all is_digit ip \<and> list_all is_digit fp \<and>
      (fp = [] \<and> t = ip \<or> fp \<noteq> [] \<and> t = ip @ ''.'' @ fp))"
proof
  assume a: "serial_re t"
  define ip where "ip = takeWhile is_digit t"
  have ip: "ip \<noteq> []" "list_all is_digit ip"
    using a by (auto simp: serial_re_def ip_def list_all_iff dest: set_takeWhileD)
  have t: "t = ip @ dropWhile is_digit t" by (simp add: ip_def)
  show "\<exists>ip fp. ip \<noteq> [] \<and> list_all is_digit ip \<and> list_all is_digit fp \<and>
      (fp = [] \<and> t = ip \<or> fp \<noteq> [] \<and> t = ip @ ''.'' @ fp)"
  proof (cases "dropWhile is_digit t")
    case Nil
    have "t = ip" using arg_cong[OF Nil, of "\<lambda>r. ip @ r"] t by simp
    moreover have "list_all is_digit ([]::string)" by simp
    ultimately show ?thesis using ip by blast
  next
    case (Cons c fp)
    then have "c = CHR ''.''" "fp \<noteq> []" "list_all is_digit fp"
      using a by (auto simp: serial_re_def)
    moreover have "t = ip @ ''.'' @ fp" using t Cons \<open>c = CHR ''.''\<close> by simp
    ultimately show ?thesis using ip by blast
  qed
next
  assume "\<exists>ip fp. ip \<noteq> [] \<and> list_all is_digit ip \<and> list_all is_digit fp \<and>
      (fp = [] \<and> t = ip \<or> fp \<noteq> [] \<and> t = ip @ ''.'' @ fp)"
  then obtain ip fp where ip: "ip \<noteq> []" "list_all is_digit ip" and fp: "list_all is_digit fp"
    and t: "fp = [] \<and> t = ip \<or> fp \<noteq> [] \<and> t = ip @ ''.'' @ fp" by blast
  have all: "\<forall>c\<in>set ip. is_digit c" using ip by (simp add: list_all_iff)
  from t show "serial_re t"
  proof
    assume b: "fp = [] \<and> t = ip"
    have tk: "takeWhile is_digit ip = ip" "dropWhile is_digit ip = []" using all by simp_all
    from b have tip: "t = ip" by simp
    show ?thesis unfolding serial_re_def tip tk using ip by simp
  next
    assume b: "fp \<noteq> [] \<and> t = ip @ ''.'' @ fp"
    have "takeWhile is_digit t = ip" "dropWhile is_digit t = CHR ''.'' # fp"
      using b all by (simp_all add: takeWhile_append2 dropWhile_append2 dot_not_digit)
    then show ?thesis using ip fp b by (simp add: serial_re_def)
  qed
qed

lemma exponent_part_ws: "list_all is_ws w \<Longrightarrow> exponent_part w = 0"
  by (cases w) (auto simp: exponent_part_def dest: ws_not_special)

lemma parseFloat_serial:
  assumes ip: "ip \<noteq> []" "list_all is_digit ip" and fp: "list_all is_digit fp"
    and t: "fp = [] \<and> trim s = ip \<or> fp \<noteq> [] \<and> trim s = ip @ ''.'' @ fp"
  shows "parseFloat s = decimal ip fp"
proof -
  obtain w where u: "dropWhile is_ws s = trim s @ w" and w: "list_all is_ws w"
    using trim_decomp by blast
  obtain c ip' where ipc: "ip = c # ip'" using ip by (cases ip) auto
  have c: "is_digit c" using ip ipc by simp
  have alli: "\<forall>c\<in>set ip. is_digit c" using ip by (simp add: list_all_iff)
  have allf: "\<forall>c\<in>set fp. is_digit c" using fp by (simp add: list_all_iff)
  have wd: "takeWhile is_digit w = []" "dropWhile is_digit w = w"
    using w by (cases w; simp add: ws_not_digit)+
  have ew: "exponent_part w = 0" using w by (rule exponent_part_ws)
  have wdot: "w = [] \<or> (\<exists>d w'. w = d # w' \<and> d \<noteq> CHR ''.'')"
    using w by (cases w) (auto dest: ws_not_special)
  from t show ?thesis
  proof
    assume a: "fp = [] \<and> trim s = ip"
    then have u': "dropWhile is_ws s = c # (ip' @ w)" using u ipc by simp
    have nI: "take 8 (ip @ w) \<noteq> ''Infinity''" using c ipc digit_not_special[of c] by auto
    have tk: "takeWhile is_digit (ip @ w) = ip" "dropWhile is_digit (ip @ w) = w"
      using alli wd by (simp_all add: takeWhile_append2 dropWhile_append2)
    have "unsigned_literal (ip @ w) = fl (of_nat (digits_val ip))"
      using wdot ip ew nI by (auto simp: unsigned_literal_def tk Let_def)
    moreover have "parseFloat s = unsigned_literal (ip @ w)"
      using u' c digit_not_special[of c] ipc by (simp add: parseFloat_def)
    ultimately show ?thesis using a by (simp add: decimal_def)
  next
    assume a: "fp \<noteq> [] \<and> trim s = ip @ ''.'' @ fp"
    then have u': "dropWhile is_ws s = c # (ip' @ ''.'' @ fp @ w)" using u ipc by simp
    have nI: "take 8 (ip @ ''.'' @ fp @ w) \<noteq> ''Infinity''"
      using c ipc digit_not_special[of c] by auto
    have tk: "takeWhile is_digit (ip @ CHR ''.'' # fp @ w) = ip"
      "dropWhile is_digit (ip @ CHR ''.'' # fp @ w) = CHR ''.'' # fp @ w"
      using alli by (simp_all add: takeWhile_append2 dropWhile_append2 dot_not_digit)
    have tk2: "takeWhile is_digit (fp @ w) = fp" "dropWhile is_digit (fp @ w) = w"
      using allf wd by (simp_all add: takeWhile_append2 dropWhile_append2)
    have "unsigned_literal (ip @ ''.'' @ fp @ w)
        = fl (of_nat (digits_val (ip @ fp)) * 10 powi (- int (length fp)))"
      using a ew nI by (simp add: unsigned_literal_def tk tk2 Let_def)
    moreover have "parseFloat s = unsigned_literal (ip @ ''.'' @ fp @ w)"
      using u' c digit_not_special[of c] ipc by (simp add: parseFloat_def)
    ultimately show ?thesis
      by (simp add: decimal_def power_int_minus divide_inverse)
  qed
qed

lemma decimal_not_NaN: "\<not> isNaN (decimal ip fp)"
  by (simp add: decimal_def fl_def Let_def)

text \<open>
  C5: \<open>isExcelSerialDate s\<close> holds exactly when the trimmed string is a decimal numeral
  \<open>ip\<close> or \<open>ip.fp\<close> (the strings that \<^verbatim>\<open>^\d+(\.\d+)?$\<close> matches) and the Number it parses to
  is at least 1 and less than 100000. It is false for 0.5 and for 100000, and true for 1 and
  for 99999.5.
\<close>

theorem isExcelSerialDate_iff:
  "(isExcelSerialDate s \<longleftrightarrow>
      (\<exists>ip fp. ip \<noteq> [] \<and> list_all is_digit ip \<and> list_all is_digit fp \<and>
         (fp = [] \<and> trim s = ip \<or> fp \<noteq> [] \<and> trim s = ip @ ''.'' @ fp) \<and>
         js_ge (decimal ip fp) (Fin 1) \<and> js_lt (decimal ip fp) (Fin 100000)))
   \<and> \<not> isExcelSerialDate ''0.5'' \<and> \<not> isExcelSerialDate ''100000''
   \<and> isExcelSerialDate ''1'' \<and> isExcelSerialDate ''99999.5''"
proof (intro conjI)
  show "isExcelSerialDate s \<longleftrightarrow>
      (\<exists>ip fp. ip \<noteq> [] \<and> list_all is_digit ip \<and> list_all is_digit fp \<and>
         (fp = [] \<and> trim s = ip \<or> fp \<noteq> [] \<and> trim s = ip @ ''.'' @ fp) \<and>
         js_ge (decimal ip fp) (Fin 1) \<and> js_lt (decimal ip fp) (Fin 100000))"
    (is "?L \<longleftrightarrow> ?R")
  proof
    assume l: ?L
    then have re: "serial_re (trim s)" by (auto simp: isExcelSerialDate_def split: if_splits)
    then obtain ip fp where d: "ip \<noteq> []" "list_all is_digit ip" "list_all is_digit fp"
      "fp = [] \<and> trim s = ip \<or> fp \<noteq> [] \<and> trim s = ip @ ''.'' @ fp"
      unfolding serial_re_iff by blast
    have "parseFloat s = decimal ip fp" using d by (rule parseFloat_serial)
    then show ?R using l re d by (auto simp: isExcelSerialDate_def Let_def)
  next
    assume ?R
    then obtain ip fp where d: "ip \<noteq> []" "list_all is_digit ip" "list_all is_digit fp"
      "fp = [] \<and> trim s = ip \<or> fp \<noteq> [] \<and> trim s = ip @ ''.'' @ fp"
      and r: "js_ge (decimal ip fp) (Fin 1)" "js_lt (decimal ip fp) (Fin 100000)" by blast
    have re: "serial_re (trim s)" unfolding serial_re_iff using d by blast
    have "parseFloat s = decimal ip fp" using d by (rule parseFloat_serial)
    then show ?L using re r decimal_not_NaN by (simp add: isExcelSerialDate_def Let_def)
  qed
next
  have "fl (1 / 2) = Fin (1 / 2)"
    by (rule fl_evalI[where e="-1" and m="2^52"]) simp_all
  then show "\<not> isExcelSerialDate ''0.5''"
    by (simp add: isExcelSerialDate_def parseFloat_def unsigned_literal_def is_ws_def
        is_digit_def digits_val_def exponent_part_def)
next
  have "fl 100000 = Fin 100000" using fl_int[of 100000] by simp
  then show "\<not> isExcelSerialDate ''100000''"
    by (simp add: isExcelSerialDate_def parseFloat_def unsigned_literal_def is_ws_def
        is_digit_def digits_val_def exponent_part_def)
next
  have "fl 1 = Fin 1" using fl_int[of 1] by simp
  moreover have "serial_re (trim ''1'')" by code_simp
  ultimately show "isExcelSerialDate ''1''"
    by (simp add: isExcelSerialDate_def parseFloat_def unsigned_literal_def is_ws_def
        is_digit_def digits_val_def exponent_part_def)
next
  have "fl (199999 / 2) = Fin (199999 / 2)"
    by (rule fl_evalI[where e="16" and m="199999 * 2 ^ 35"]) simp_all
  moreover have "serial_re (trim ''99999.5'')" by code_simp
  ultimately show "isExcelSerialDate ''99999.5''"
    by (simp add: isExcelSerialDate_def parseFloat_def unsigned_literal_def is_ws_def
        is_digit_def digits_val_def exponent_part_def)
qed

section \<open>Column type inference\<close>

lemma datePattern_iff:
  "datePattern s \<longleftrightarrow> (\<exists>m d y. s = m @ ''/'' @ d @ ''/'' @ y \<and>
      list_all is_digit m \<and> length m \<in> {1, 2} \<and>
      list_all is_digit d \<and> length d \<in> {1, 2} \<and>
      list_all is_digit y \<and> length y = 4)"
proof
  assume a: "datePattern s"
  define m where "m = takeWhile is_digit s"
  have m: "list_all is_digit m" "length m \<in> {1, 2}"
    using a by (auto simp: datePattern_def m_def list_all_iff dest: set_takeWhileD)
  have s: "s = m @ dropWhile is_digit s" by (simp add: m_def)
  obtain c r where r: "dropWhile is_digit s = c # r" using a
    by (cases "dropWhile is_digit s") (auto simp: datePattern_def)
  define d where "d = takeWhile is_digit r"
  have c: "c = CHR ''/''" and d: "list_all is_digit d" "length d \<in> {1, 2}"
    using a r by (auto simp: datePattern_def d_def list_all_iff dest: set_takeWhileD)
  have rr: "r = d @ dropWhile is_digit r" by (simp add: d_def)
  obtain c2 y where y: "dropWhile is_digit r = c2 # y" using a r
    by (cases "dropWhile is_digit r") (auto simp: datePattern_def)
  have c2: "c2 = CHR ''/''" and yy: "list_all is_digit y" "length y = 4"
    using a r y by (auto simp: datePattern_def)
  have "s = m @ ''/'' @ d @ ''/'' @ y"
    using s r c rr y c2 by (metis append_Cons append_Nil)
  then show "\<exists>m d y. s = m @ ''/'' @ d @ ''/'' @ y \<and>
      list_all is_digit m \<and> length m \<in> {1, 2} \<and>
      list_all is_digit d \<and> length d \<in> {1, 2} \<and>
      list_all is_digit y \<and> length y = 4"
    using m d yy by blast
next
  assume "\<exists>m d y. s = m @ ''/'' @ d @ ''/'' @ y \<and>
      list_all is_digit m \<and> length m \<in> {1, 2} \<and>
      list_all is_digit d \<and> length d \<in> {1, 2} \<and>
      list_all is_digit y \<and> length y = 4"
  then obtain m d y where s: "s = m @ CHR ''/'' # d @ CHR ''/'' # y"
    and m: "list_all is_digit m" "length m \<in> {1, 2}"
    and d: "list_all is_digit d" "length d \<in> {1, 2}"
    and y: "list_all is_digit y" "length y = 4" by auto
  have nd: "\<not> is_digit (CHR ''/'')" by (simp add: is_digit_def)
  have am: "\<forall>c\<in>set m. is_digit c" and ad: "\<forall>c\<in>set d. is_digit c"
    using m d by (simp_all add: list_all_iff)
  have t1: "takeWhile is_digit s = m" "dropWhile is_digit s = CHR ''/'' # d @ CHR ''/'' # y"
    unfolding s using am nd by (simp_all add: takeWhile_append2 dropWhile_append2)
  have t2: "takeWhile is_digit (d @ CHR ''/'' # y) = d"
    "dropWhile is_digit (d @ CHR ''/'' # y) = CHR ''/'' # y"
    using ad nd by (simp_all add: takeWhile_append2 dropWhile_append2)
  show "datePattern s"
    unfolding datePattern_def t1 list.case t2 using m d y by simp
qed

lemma samples_code:
  "map or_empty (take 3 (filter (\<lambda>v. v \<noteq> None \<and> v \<noteq> Some [])
        (map (\<lambda>row. map_of row column) dat))) = samples dat column"
proof -
  have "map or_empty (filter (\<lambda>v. v \<noteq> None \<and> v \<noteq> Some []) (map (\<lambda>row. map_of row column) dat))
      = filter (\<lambda>v. v \<noteq> []) (List.map_filter (\<lambda>row. map_of row column) dat)"
    by (induction dat) (auto simp: List.map_filter_simps or_empty_def split: option.splits)
  from arg_cong[OF this, of "take 3"] show ?thesis
    unfolding samples_def by (simp only: take_map)
qed

lemma finite_number: "(\<not> isNaN v \<and> isFinite v) \<longleftrightarrow> (\<exists>x. v = Fin x)"
  by (cases v) auto

lemma getColumnDataType_eq:
  "getColumnDataType dat column =
     (if samples dat column = [] then TextT
      else if list_all datePattern (samples dat column) then DateT
      else if list_all (\<lambda>v. \<exists>x. parseFloat v = Fin x) (samples dat column) then NumberT
      else TextT)"
proof -
  define S where "S = take 3 (filter (\<lambda>v. v \<noteq> None \<and> v \<noteq> Some [])
        (map (\<lambda>row. map_of row column) dat))"
  have sc: "map or_empty S = samples dat column" unfolding S_def by (rule samples_code)
  have e: "S = [] \<longleftrightarrow> samples dat column = []" using sc by (metis map_is_Nil_conv)
  have d: "list_all (\<lambda>v. datePattern (or_empty v)) S = list_all datePattern (samples dat column)"
    unfolding sc[symmetric] by (simp add: list_all_iff)
  have n: "list_all (\<lambda>v. \<not> isNaN (parseFloat (or_empty v)) \<and> isFinite (parseFloat (or_empty v))) S
      = list_all (\<lambda>v. \<exists>x. parseFloat v = Fin x) (samples dat column)"
    unfolding sc[symmetric] by (simp add: list_all_iff finite_number)
  have nil: "dat = [] \<Longrightarrow> samples dat column = []"
    by (simp add: samples_def List.map_filter_simps)
  show ?thesis
    unfolding getColumnDataType_def Let_def S_def[symmetric] d n e using nil by simp
qed


section \<open>Dates of whole serial numbers\<close>

lemma MakeDay_1900: "MakeDate (MakeDay 1900 0 1) (MakeTime 0 0 0 0) = epoch1900"
  unfolding epoch1900_def by code_simp

lemma TimeClip_int:
  "\<bar>t\<bar> \<le> 8640000000000000 \<Longrightarrow> TimeClip (Fin (of_int t)) = Some t"
proof -
  assume a: "\<bar>t\<bar> \<le> 8640000000000000"
  have "\<bar>rat_of_int t\<bar> = of_int \<bar>t\<bar>" by simp
  also have "\<dots> \<le> of_int 8640000000000000" using a by (simp only: of_int_le_iff)
  finally have "\<not> 8640000000000000 < \<bar>rat_of_int t\<bar>" by simp
  then show ?thesis by simp
qed

lemma Date_ymd_1900:
  assumes "\<bar>local_offset h epoch1900\<bar> \<le> msPerDay"
  shows "Date_ymd h 1900 0 1 = Some (epoch1900 - local_offset h epoch1900)"
  unfolding Date_ymd_def MakeDay_1900 UTC_def
  by (rule TimeClip_int) (use assms in \<open>simp add: epoch1900_def msPerDay_def\<close>)

lemma serial_date_whole:
  assumes p: "parseFloat s = Fin (of_int n)" and n: "0 \<le> n" "n \<le> 100000"
    and z: "\<bar>local_offset h epoch1900\<bar> \<le> msPerDay"
  shows "serial_date h s = Some (epoch1900 - local_offset h epoch1900 + (n - 2) * msPerDay)"
proof -
  define E where "E = epoch1900 - local_offset h epoch1900"
  have Eb: "\<bar>E\<bar> \<le> 2209075200000"
    using z unfolding E_def epoch1900_def msPerDay_def by linarith
  have ep: "Date_ymd h 1900 0 1 = Some E"
    unfolding Date_ymd_def MakeDay_1900 UTC_def E_def[symmetric]
    by (rule TimeClip_int) (use Eb in linarith)
  have d: "js_sub (parseFloat s) (Fin 2) = Fin (of_int (n - 2))"
    unfolding p using js_sub_int[of n 2] n by simp
  have m1: "js_mul (Fin (of_int (n - 2))) (Fin 24) = Fin (of_int ((n - 2) * 24))"
    using js_mul_int[of "n - 2" 24] n by simp
  have m2: "js_mul (Fin (of_int ((n - 2) * 24))) (Fin 60) = Fin (of_int ((n - 2) * 24 * 60))"
    using js_mul_int[of "(n - 2) * 24" 60] n by simp
  have m3: "js_mul (Fin (of_int ((n - 2) * 24 * 60))) (Fin 60) = Fin (of_int ((n - 2) * 24 * 60 * 60))"
    using js_mul_int[of "(n - 2) * 24 * 60" 60] n by simp
  have m4: "js_mul (Fin (of_int ((n - 2) * 24 * 60 * 60))) (Fin 1000)
      = Fin (of_int ((n - 2) * 24 * 60 * 60 * 1000))"
    using js_mul_int[of "(n - 2) * 24 * 60 * 60" 1000] n by simp
  have a: "js_add (Fin (of_int E)) (Fin (of_int ((n - 2) * 24 * 60 * 60 * 1000)))
      = Fin (of_int (E + (n - 2) * 24 * 60 * 60 * 1000))"
    by (rule js_add_int) (use Eb n in simp)
  have c: "TimeClip (Fin (of_int (E + (n - 2) * 24 * 60 * 60 * 1000)))
      = Some (E + (n - 2) * 24 * 60 * 60 * 1000)"
    by (rule TimeClip_int) (use Eb n in simp)
  show ?thesis
    unfolding serial_date_def Let_def ep d m1 m2 m3 m4 getTime_def option.case a Date_value_def c
    by (simp add: E_def msPerDay_def)
qed

lemma formatExcelDate_Some:
  assumes "serial_date h s = Some t"
  shows "formatExcelDate h s = format_MDY (Day (LocalTime h t))"
  unfolding formatExcelDate_def Let_def assms getMonth_def getDate_def getFullYear_def
    format_MDY_def civil_def MonthFromTime_def DateFromTime_def DayWithinYear_def YearFromTime_def
  by (simp add: String_num_def)

section \<open>Display columns\<close>

lemma endsWith_decomp: "endsWith c suf \<Longrightarrow> c = take (length c - length suf) c @ suf"
  unfolding endsWith_def by (metis append_take_drop_id)

lemma endsWith_append [simp]: "endsWith (p @ suf) suf"
  by (simp add: endsWith_def)

lemma not_Date_Time: "\<not> endsWith (p @ ''Date'') ''Time''"
  by (simp add: endsWith_def)

text \<open>
  C9, as amended: a chosen column whose name ends in \<open>Time\<close> is left out of the rendered
  headers when the name with \<open>Date\<close> in place of that suffix is chosen too, and the Date
  column stays; when the Time column is a key of the first record, the cell of the Date
  column is \<open>formatDateTimeValue\<close> of the two values of the row. The display columns
  \<open>Event End Date\<close>, \<open>Event End Time\<close>, \<open>Name\<close> give the headers \<open>Event End Date\<close>,
  \<open>Name\<close>. The headers of a table are its display columns, and the cells of its first page
  are rendered so, with the keys of the first record.
\<close>

theorem time_column_suppressed:
  assumes "c \<in> set (chosenColumns allCols cols)"
    and "endsWith c ''Time''"
    and "take (length c - 4) c @ ''Date'' \<in> set (chosenColumns allCols cols)"
  shows "c \<notin> set (displayColumns allCols cols) \<and>
     take (length c - 4) c @ ''Date'' \<in> set (displayColumns allCols cols) \<and>
     (c \<in> set allCols \<longrightarrow>
        renderCell h allCols row (take (length c - 4) c @ ''Date'') =
          formatDateTimeValue h (Some (or_empty (map_of row (take (length c - 4) c @ ''Date''))))
                                (Some (or_empty (map_of row c)))) \<and>
     displayColumns allCols (Some [''Event End Date'', ''Event End Time'', ''Name''])
       = [''Event End Date'', ''Name''] \<and>
     (createTable h dat cols = Some s \<longrightarrow>
        columns s = displayColumns (map fst (hd dat)) cols \<and>
        allColumns s = map fst (hd dat) \<and>
        tbody s = map (\<lambda>row. map (renderCell h (allColumns s) row) (columns s))
                    (getPaginatedData (currentData s) 1 10))"
proof (intro conjI impI)
  show "c \<notin> set (displayColumns allCols cols)"
    using assms by (simp add: displayColumns_def Let_def)
  show "take (length c - 4) c @ ''Date'' \<in> set (displayColumns allCols cols)"
    using assms(3) not_Date_Time by (simp add: displayColumns_def Let_def)
  show "displayColumns allCols (Some [''Event End Date'', ''Event End Time'', ''Name''])
       = [''Event End Date'', ''Name'']"
    by (simp add: displayColumns_def chosenColumns_def endsWith_def)
next
  assume "c \<in> set allCols"
  moreover have "c = take (length c - 4) c @ ''Time''"
    using endsWith_decomp[OF assms(2)] by (simp add: numeral_eq_Suc)
  ultimately have "getTimeColumnForDate (take (length c - 4) c @ ''Date'') allCols = Some c"
    by (simp add: getTimeColumnForDate_def Let_def)
  then show "renderCell h allCols row (take (length c - 4) c @ ''Date'') =
          formatDateTimeValue h (Some (or_empty (map_of row (take (length c - 4) c @ ''Date''))))
                                (Some (or_empty (map_of row c)))"
    by (simp add: renderCell_def)
next
  assume c: "createTable h dat cols = Some s"
  then show "columns s = displayColumns (map fst (hd dat)) cols"
    by (cases dat) (auto simp: createTable_def Let_def updatePaginationControls_def renderPage_def)
  from c show "allColumns s = map fst (hd dat)"
    by (cases dat) (auto simp: createTable_def Let_def updatePaginationControls_def renderPage_def)
  from c show "tbody s = map (\<lambda>row. map (renderCell h (allColumns s) row) (columns s))
                    (getPaginatedData (currentData s) 1 10)"
    by (cases dat)
       (auto simp: createTable_def Let_def updatePaginationControls_def renderPage_def
          renderTableBody_def)
qed

lemma example_45000:
  "isExcelSerialDate ''45000'' \<and> formatExcelDate utc_host ''45000'' = ''03/15/2023''"
proof -
  have p: "parseFloat ''45000'' = Fin (of_int 45000)"
    by (simp add: parseFloat_def unsigned_literal_def is_ws_def is_digit_def digits_val_def
        exponent_part_def fl_numeral)
  have re: "serial_re (trim ''45000'')" by code_simp
  have sd: "serial_date utc_host ''45000'' = Some 1678838400000"
    using serial_date_whole[OF p, of utc_host]
    by (simp add: utc_host_def epoch1900_def msPerDay_def)
  have d: "Day (LocalTime utc_host 1678838400000) = 19431"
    by (simp add: Day_def LocalTime_def utc_host_def msPerDay_def)
  have f: "format_MDY 19431 = ''03/15/2023''" by code_simp
  show ?thesis
    using re p by (simp add: isExcelSerialDate_def formatExcelDate_Some[OF sd] d f)
qed

theorem time_column_suppressed_witness:
  "''Event End Time'' \<in> set (chosenColumns [''Name'', ''Event End Date'', ''Event End Time'']
       (Some [''Event End Date'', ''Event End Time'', ''Name''])) \<and>
   endsWith ''Event End Time'' ''Time'' \<and>
   ''Event End Time'' \<notin> set (displayColumns [''Name'', ''Event End Date'', ''Event End Time'']
       (Some [''Event End Date'', ''Event End Time'', ''Name''])) \<and>
   ''Event End Date'' \<in> set (displayColumns [''Name'', ''Event End Date'', ''Event End Time'']
       (Some [''Event End Date'', ''Event End Time'', ''Name''])) \<and>
   renderCell utc_host [''Name'', ''Event End Date'', ''Event End Time'']
     [(''Name'', ''A''), (''Event End Date'', ''45000''), (''Event End Time'', ''03:00'')]
     ''Event End Date'' = ''03/15/2023 03:00''"
proof -
  have t: "trim ''03:00'' \<noteq> []" by code_simp
  show ?thesis
    using time_column_suppressed [of "''Event End Time''"
        "[''Name'', ''Event End Date'', ''Event End Time'']"
        "Some [''Event End Date'', ''Event End Time'', ''Name'']" utc_host
        "[(''Name'', ''A''), (''Event End Date'', ''45000''), (''Event End Time'', ''03:00'')]"]
      example_45000 t
    by (simp add: chosenColumns_def endsWith_def formatDateTimeValue_def or_empty_def)
qed

text \<open>
  The merge looks for the Time column among the keys of the first record, the suppression
  among the chosen columns. In the table below the Time column is chosen and the first
  record has no such key: the column is left out, and the time 04:00 of the second record
  is in no cell.
\<close>

lemma no_start_columns:
  "\<not> str_includes (toLowerCase ''Event End Date'') ''event start date''"
  "\<not> str_includes (toLowerCase ''Name'') ''event start date''"
  by code_simp+

lemma not_serial_AB: "\<not> isExcelSerialDate ''A''" "\<not> isExcelSerialDate ''B''"
proof -
  have "\<not> serial_re (trim ''A'')" "\<not> serial_re (trim ''B'')" by code_simp+
  then show "\<not> isExcelSerialDate ''A''" "\<not> isExcelSerialDate ''B''"
    by (simp_all add: isExcelSerialDate_def)
qed

theorem time_column_suppressed_counterexample:
  "''Event End Time'' \<in> set (chosenColumns (map fst (hd rows_late_time))
       (Some [''Event End Date'', ''Event End Time'', ''Name''])) \<and>
   ''Event End Date'' \<in> set (chosenColumns (map fst (hd rows_late_time))
       (Some [''Event End Date'', ''Event End Time'', ''Name''])) \<and>
   map_option columns (createTable utc_host rows_late_time
       (Some [''Event End Date'', ''Event End Time'', ''Name'']))
     = Some [''Event End Date'', ''Name''] \<and>
   map_option tbody (createTable utc_host rows_late_time
       (Some [''Event End Date'', ''Event End Time'', ''Name'']))
     = Some [[''03/15/2023'', ''A''], [''03/15/2023'', ''B'']] \<and>
   formatDateTimeValue utc_host (Some ''45000'') (Some ''04:00'') = ''03/15/2023 04:00''"
proof -
  have t: "trim ''04:00'' \<noteq> []" by code_simp
  have d: "displayColumns [''Name'', ''Event End Date'']
      (Some [''Event End Date'', ''Event End Time'', ''Name'']) = [''Event End Date'', ''Name'']"
    by (simp add: displayColumns_def chosenColumns_def endsWith_def)
  have g: "getTimeColumnForDate ''Event End Date'' [''Name'', ''Event End Date''] = None"
    "getTimeColumnForDate ''Name'' [''Name'', ''Event End Date''] = None"
    by (simp_all add: getTimeColumnForDate_def endsWith_def)
  have c: "createTable utc_host rows_late_time (Some [''Event End Date'', ''Event End Time'', ''Name''])
      = Some (updatePaginationControls (renderPage utc_host
               \<lparr>data = rows_late_time, columns = [''Event End Date'', ''Name''],
                allColumns = [''Name'', ''Event End Date''],
                currentPage = 1, itemsPerPage = 10, currentData = rows_late_time,
                sortColumn = None, sortDirection = Asc,
                tbody = [], totalPages = 0, prevDisabled = False, nextDisabled = False,
                pageInfo = []\<rparr>))"
    by (simp add: createTable_def rows_late_time_def d no_start_columns Let_def)
  have b: "renderTableBody utc_host (getPaginatedData rows_late_time 1 10)
      [''Event End Date'', ''Name''] [''Name'', ''Event End Date'']
      = [[''03/15/2023'', ''A''], [''03/15/2023'', ''B'']]"
    using example_45000
    by (simp add: renderTableBody_def getPaginatedData_def slice_def rows_late_time_def
        renderCell_def g formatCellValue_def or_empty_def not_serial_AB)
  have 1: "map_option columns (createTable utc_host rows_late_time
       (Some [''Event End Date'', ''Event End Time'', ''Name'']))
     = Some [''Event End Date'', ''Name'']"
    unfolding c by (simp add: renderPage_def updatePaginationControls_def Let_def)
  have 2: "map_option tbody (createTable utc_host rows_late_time
       (Some [''Event End Date'', ''Event End Time'', ''Name'']))
     = Some [[''03/15/2023'', ''A''], [''03/15/2023'', ''B'']]"
    unfolding c by (simp add: renderPage_def updatePaginationControls_def Let_def b)
  have 3: "formatDateTimeValue utc_host (Some ''45000'') (Some ''04:00'') = ''03/15/2023 04:00''"
    using example_45000 t by (simp add: formatDateTimeValue_def)
  have 4: "chosenColumns (map fst (hd rows_late_time))
       (Some [''Event End Date'', ''Event End Time'', ''Name''])
     = [''Event End Date'', ''Event End Time'', ''Name'']"
    by (simp add: chosenColumns_def)
  show ?thesis unfolding 1 2 3 4 by simp
qed

section \<open>The date of a serial number\<close>





lemma Day_between:
  assumes "a * msPerDay \<le> w" "w < (a + 1) * msPerDay"
  shows "Day w = a"
proof -
  have "w div msPerDay = a"
    by (rule int_div_pos_eq[where r = "w - a * msPerDay"])
       (use assms in \<open>simp_all add: msPerDay_def algebra_simps\<close>)
  then show ?thesis by (simp add: Day_def)
qed

lemma MakeDay_1900_day: "MakeDay 1900 0 1 = - 25567"
  by code_simp


lemma format_days: "format_MDY (- 25567) = ''01/01/1900''" "format_MDY (- 25566) = ''01/02/1900''"
  "format_MDY 19431 = ''03/15/2023''" "format_MDY 19430 = ''03/14/2023''"
  by code_simp+

lemma parse_45000: "parseFloat ''45000'' = Fin 45000"
  by (simp add: parseFloat_def unsigned_literal_def is_ws_def is_digit_def digits_val_def
      exponent_part_def fl_numeral)

lemma serial_45000: "isExcelSerialDate ''45000''"
proof -
  have "serial_re (trim ''45000'')" by code_simp
  then show ?thesis by (simp add: isExcelSerialDate_def parse_45000)
qed

lemma serial_date_bogota: "serial_date bogota_host ''45000'' = Some 1678856176000"
proof -
  have p: "parseFloat ''45000'' = Fin (of_int 45000)" using parse_45000 by simp
  show ?thesis
    using serial_date_whole[OF p, of bogota_host]
    by (simp add: bogota_host_def epoch1900_def msPerDay_def)
qed

text \<open>
  C6: the date of the specification for a serial number \<open>v\<close> is 1900-01-01 plus \<open>\<lfloor>v\<rfloor> - 2\<close>
  days. \<open>formatExcelDate\<close> adds \<open>v - 2\<close> times 24 hours to the instant of local midnight of
  1900-01-01 and returns the local date of the sum, which is another date when the offset
  of the zone has changed since 1900: in the zone of the example, five hours behind UTC
  now and 4:56:16 behind it in 1900, the sum for the whole serial number 45000 is at
  23:56:16 of the day before, and the date returned is 03/14/2023 where the specification
  has 03/15/2023.
\<close>

theorem formatExcelDate_day_early:
  "isExcelSerialDate ''45000'' \<and> parseFloat ''45000'' = Fin 45000 \<and>
   spec_serialToDate 45000 = ''03/15/2023'' \<and>
   serial_date bogota_host ''45000'' = Some 1678856176000 \<and>
   LocalTime bogota_host 1678856176000 = 19430 * msPerDay + MakeTime 23 56 16 0 \<and>
   formatExcelDate bogota_host ''45000'' = ''03/14/2023''"
proof -
  have 1: "spec_serialToDate 45000 = ''03/15/2023''"
    by (simp add: spec_serialToDate_def MakeDay_1900_day format_days)
  have 2: "LocalTime bogota_host 1678856176000 = 19430 * msPerDay + MakeTime 23 56 16 0"
    by (simp add: LocalTime_def bogota_host_def msPerDay_def MakeTime_def)
  have "Day (LocalTime bogota_host 1678856176000) = 19430"
    by (simp add: Day_def LocalTime_def bogota_host_def msPerDay_def)
  then have 3: "formatExcelDate bogota_host ''45000'' = ''03/14/2023''"
    by (simp add: formatExcelDate_Some[OF serial_date_bogota] format_days)
  show ?thesis using serial_45000 parse_45000 1 2 3 serial_date_bogota by simp
qed

lemma parse_cex: "parseFloat ''2.99999999999'' = Fin (3377699720516613 / 1125899906842624)"
proof -
  have "fl (299999999999 / 100000000000) = Fin (3377699720516613 / 1125899906842624)"
    by (rule fl_evalI[where e = 1 and m = 6755399441033226]) simp_all
  then show ?thesis
    by (simp add: parseFloat_def unsigned_literal_def is_ws_def is_digit_def digits_val_def
        exponent_part_def)
qed

lemma days_cex:
  "js_sub (Fin (3377699720516613 / 1125899906842624)) (Fin 2)
     = Fin (1125899906831365 / 1125899906842624)"
  unfolding js_sub_def js_neg.simps js_add.simps
  by (rule fl_evalI[where e = "- 1" and m = 9007199254650920]) simp_all

lemma mul1_cex:
  "js_mul (Fin (1125899906831365 / 1125899906842624)) (Fin 24)
     = Fin (3377699720494095 / 140737488355328)"
  unfolding js_mul.simps
  by (rule fl_evalI[where e = 4 and m = 6755399440988190]) simp_all

lemma mul2_cex:
  "js_mul (Fin (3377699720494095 / 140737488355328)) (Fin 60)
     = Fin (1583296743981607 / 1099511627776)"
  unfolding js_mul.simps
  by (rule fl_evalI[where e = 10 and m = 6333186975926428]) simp_all

lemma mul3_cex:
  "js_mul (Fin (1583296743981607 / 1099511627776)) (Fin 60)
     = Fin (2968681394965513 / 34359738368)"
  unfolding js_mul.simps
  by (rule fl_evalI[where e = 16 and m = 5937362789931026]) simp_all

lemma mul4_cex:
  "js_mul (Fin (2968681394965513 / 34359738368)) (Fin 1000)
     = Fin (2899102924771009 / 33554432)"
  unfolding js_mul.simps
  by (rule fl_evalI[where e = 26 and m = 5798205849542018]) simp_all

lemma add_cex:
  "js_add (Fin (of_int (- 2208988800000))) (Fin (2899102924771009 / 33554432))
     = Fin (- (2261916057600001 / 1024))"
  unfolding js_add.simps
  by (rule fl_evalI[where e = 41 and m = 4523832115200002]) simp_all

lemma clip_cex: "TimeClip (Fin (- (2261916057600001 / 1024))) = Some (- 2208902400000)"
proof -
  have "\<lceil>- (2261916057600001 / 1024 :: rat)\<rceil> = - 2208902400000"
    by (rule ceiling_unique) simp_all
  then show ?thesis by simp
qed

lemma serial_date_cex: "serial_date utc_host ''2.99999999999'' = Some (- 2208902400000)"
proof -
  have ep: "Date_ymd utc_host 1900 0 1 = Some (- 2208988800000)"
    using Date_ymd_1900[of utc_host] by (simp add: utc_host_def epoch1900_def msPerDay_def)
  show ?thesis
    unfolding serial_date_def Let_def ep parse_cex days_cex mul1_cex mul2_cex mul3_cex mul4_cex
      getTime_def option.case add_cex Date_value_def
    by (rule clip_cex)
qed

text \<open>
  In UTC, the serial date 2.99999999999 is less than a millisecond before the end of its
  day: the fraction of a millisecond is cut off towards zero, which before 1970 is
  upwards, and the date returned is that of the following day.
\<close>

theorem formatExcelDate_floor_counterexample:
  "isExcelSerialDate ''2.99999999999'' \<and>
   parseFloat ''2.99999999999'' = Fin (3377699720516613 / 1125899906842624) \<and>
   spec_serialToDate (3377699720516613 / 1125899906842624) = ''01/01/1900'' \<and>
   formatExcelDate utc_host ''2.99999999999'' = ''01/02/1900''"
proof -
  have re: "serial_re (trim ''2.99999999999'')" by code_simp
  have 1: "isExcelSerialDate ''2.99999999999''"
    using re by (simp add: isExcelSerialDate_def parse_cex)
  have "\<lfloor>3377699720516613 / 1125899906842624 :: rat\<rfloor> = 2"
    by (rule floor_unique) simp_all
  then have 3: "spec_serialToDate (3377699720516613 / 1125899906842624) = ''01/01/1900''"
    by (simp add: spec_serialToDate_def MakeDay_1900_day format_days)
  have "Day (LocalTime utc_host (- 2208902400000)) = - 25566"
    by (simp add: Day_def LocalTime_def utc_host_def msPerDay_def)
  then have 4: "formatExcelDate utc_host ''2.99999999999'' = ''01/02/1900''"
    by (simp add: formatExcelDate_Some[OF serial_date_cex] format_days)
  show ?thesis using 1 3 4 parse_cex by simp
qed

section \<open>The instant of a serial number\<close>







section \<open>The event filter\<close>






















section \<open>The pagination state\<close>

lemma length_insert_by [simp]: "length (insert_by cmp x xs) = Suc (length xs)"
  by (induction xs) auto

lemma length_Array_sort [simp]: "length (Array_sort cmp xs) = length xs"
  by (induction xs) (auto simp: Array_sort_def)

lemma length_sortData [simp]: "length (sortData h dat c d) = length dat"
  by (simp add: sortData_def)

lemma updatePaginationControls_fields [simp]:
  "data (updatePaginationControls s) = data s"
  "columns (updatePaginationControls s) = columns s"
  "allColumns (updatePaginationControls s) = allColumns s"
  "currentPage (updatePaginationControls s) = currentPage s"
  "itemsPerPage (updatePaginationControls s) = itemsPerPage s"
  "currentData (updatePaginationControls s) = currentData s"
  "sortColumn (updatePaginationControls s) = sortColumn s"
  "sortDirection (updatePaginationControls s) = sortDirection s"
  "tbody (updatePaginationControls s) = tbody s"
  "totalPages (updatePaginationControls s) = pages s"
  "prevDisabled (updatePaginationControls s) = (currentPage s = 1)"
  "nextDisabled (updatePaginationControls s) = (pages s \<le> currentPage s)"
  "pages (updatePaginationControls s) = pages s"
  by (simp_all add: updatePaginationControls_def pages_def Let_def)

lemma renderPage_fields [simp]:
  "data (renderPage h s) = data s"
  "columns (renderPage h s) = columns s"
  "allColumns (renderPage h s) = allColumns s"
  "currentPage (renderPage h s) = currentPage s"
  "itemsPerPage (renderPage h s) = itemsPerPage s"
  "currentData (renderPage h s) = currentData s"
  "sortColumn (renderPage h s) = sortColumn s"
  "sortDirection (renderPage h s) = sortDirection s"
  "tbody (renderPage h s) = renderTableBody h
     (getPaginatedData (currentData s) (currentPage s) (itemsPerPage s)) (columns s) (allColumns s)"
  "pages (renderPage h s) = pages s"
  by (simp_all add: renderPage_def pages_def)

lemma pages_update [simp]:
  "pages (s\<lparr>currentPage := p\<rparr>) = pages s"
  by (simp add: pages_def)

lemma pages_ge1:
  assumes "length (currentData s) \<noteq> 0" "0 < itemsPerPage s"
  shows "1 \<le> pages s"
proof -
  have "0 < rat_of_nat (length (currentData s)) / rat_of_int (itemsPerPage s)"
    using assms by simp
  then show ?thesis unfolding pages_def by linarith
qed

lemma inv_init:
  assumes "createTable h dat cols = Some s"
  shows "inv dat s"
proof -
  obtain first rest where d: "dat = first # rest" using assms
    by (cases dat) (auto simp: createTable_def)
  have f: "data s = dat" "itemsPerPage s = 10" "currentPage s = 1" "totalPages s = pages s"
    "prevDisabled s" "nextDisabled s = (pages s \<le> 1)" "length (currentData s) = length dat"
    using assms unfolding d
    by (auto simp: createTable_def Let_def split: option.splits)
  have "1 \<le> pages s" using f d by (intro pages_ge1) auto
  then show ?thesis using f d by (simp add: inv_def)
qed

lemma perPage_value_cases: "perPage_value v \<in> {10, 25, 50, 100}"
  by (cases v) auto

lemma inv_step:
  assumes "inv dat s"
  shows "inv dat (handle h s e)"
proof -
  have ne: "length (currentData s) \<noteq> 0" and ipp: "0 < itemsPerPage s"
    using assms by (auto simp: inv_def)
  have p1: "1 \<le> pages s" using ne ipp by (rule pages_ge1)
  show ?thesis
  proof (cases e)
    case (HeaderClick i)
    show ?thesis
    proof (cases "i < length (columns s)")
      case True
      let ?s' = "sortClick h s i"
      have f: "data ?s' = dat" "length (currentData ?s') = length dat"
        "itemsPerPage ?s' = itemsPerPage s" "currentPage ?s' = 1" "totalPages ?s' = pages ?s'"
        "prevDisabled ?s'" "nextDisabled ?s' = (pages ?s' \<le> 1)"
        using assms by (auto simp: sortClick_def Let_def inv_def)
      have "1 \<le> pages ?s'" using f assms by (intro pages_ge1) (auto simp: inv_def)
      then show ?thesis using f assms HeaderClick True by (simp add: inv_def)
    next
      case False
      then show ?thesis using assms HeaderClick by simp
    qed
  next
    case PrevClick
    then show ?thesis using assms by (auto simp: inv_def prevClick_def)
  next
    case NextClick
    then show ?thesis using assms by (auto simp: inv_def nextClick_def)
  next
    case (ItemsPerPageChange v)
    let ?s' = "itemsPerPageChange h s v"
    have f: "data ?s' = dat" "length (currentData ?s') = length dat"
      "itemsPerPage ?s' = perPage_value v" "currentPage ?s' = 1" "totalPages ?s' = pages ?s'"
      "prevDisabled ?s'" "nextDisabled ?s' = (pages ?s' \<le> 1)"
      using assms by (auto simp: itemsPerPageChange_def inv_def)
    have "0 < itemsPerPage ?s'" using f(3) perPage_value_cases[of v] by auto
    then have "1 \<le> pages ?s'" using f assms by (intro pages_ge1) (auto simp: inv_def)
    then show ?thesis using f assms ItemsPerPageChange perPage_value_cases[of v]
      by (simp add: inv_def)
  qed
qed

lemma reachable_inv: "reachable h dat cols s \<Longrightarrow> inv dat s"
  by (induction rule: reachable.induct) (auto intro: inv_init inv_step)


lemma no_start_column: "\<not> str_includes (toLowerCase ''name'') ''event start date''"
  by code_simp




text \<open>
  C7: a click on the header of column \<open>c\<close> makes \<open>c\<close> the sort column; the direction flips
  when \<open>c\<close> was the sort column already and is ascending otherwise; the current array
  becomes the original array of the construction sorted by \<open>c\<close> in that direction, not
  the array sorted before; the page is 1 and its rows are rendered.
\<close>

theorem sort_header_click:
  assumes "reachable h dat cols s" and "index < length (columns s)"
  shows "let c = columns s ! index; s' = handle h s (HeaderClick index) in
     sortColumn s' = Some c \<and>
     sortDirection s' = (if sortColumn s = Some c
                         then (if sortDirection s = Asc then Desc else Asc) else Asc) \<and>
     currentData s' = sortData h dat c (sortDirection s') \<and>
     currentPage s' = 1 \<and>
     data s' = dat \<and>
     tbody s' = renderTableBody h (getPaginatedData (currentData s') 1 (itemsPerPage s))
                  (columns s) (allColumns s)"
proof -
  have "data s = dat" using reachable_inv[OF assms(1)] by (simp add: inv_def)
  then show ?thesis using assms(2) by (simp add: Let_def sortClick_def)
qed

lemma parseFloat_b: "parseFloat ''b'' = NaN"
  by (simp add: parseFloat_def unsigned_literal_def is_ws_def is_digit_def)

lemma type_ba: "getColumnDataType rows_ba ''name'' = TextT"
proof -
  have s: "samples rows_ba ''name'' = [''b'', ''a'']" unfolding rows_ba_def by code_simp
  have d: "\<not> datePattern ''b''" by code_simp
  show ?thesis unfolding getColumnDataType_eq s using d parseFloat_b by simp
qed

lemma lower_ab: "toLowerCase ''a'' = ''a''" "toLowerCase ''b'' = ''b''"
  by code_simp+

lemma sort_ba:
  "sortData utc_host rows_ba ''name'' Asc = [[(''name'', ''a'')], [(''name'', ''b'')]]"
  "sortData utc_host rows_ba ''name'' Desc = [[(''name'', ''b'')], [(''name'', ''a'')]]"
  unfolding sortData_def type_ba Let_def
  by (simp_all add: rows_ba_def Array_sort_def compareRows_def or_empty_def lower_ab utc_host_def)

lemma createTable_ba:
  "\<exists>s. createTable utc_host rows_ba None = Some s \<and> columns s = [''name''] \<and>
     sortColumn s = None \<and> sortDirection s = Asc \<and> currentData s = rows_ba"
  by (simp add: createTable_def rows_ba_def displayColumns_def chosenColumns_def endsWith_def
      no_start_column Let_def)

theorem sort_header_click_witness:
  "\<exists>s. reachable utc_host rows_ba None s \<and> 0 < length (columns s) \<and>
     sortColumn s = Some ''name'' \<and> sortDirection s = Asc \<and>
     currentData s = [[(''name'', ''a'')], [(''name'', ''b'')]] \<and>
     sortDirection (handle utc_host s (HeaderClick 0)) = Desc \<and>
     currentData (handle utc_host s (HeaderClick 0)) = [[(''name'', ''b'')], [(''name'', ''a'')]] \<and>
     currentPage (handle utc_host s (HeaderClick 0)) = 1"
proof -
  obtain s0 where s0: "createTable utc_host rows_ba None = Some s0" "columns s0 = [''name'']"
    "sortColumn s0 = None" "sortDirection s0 = Asc" "currentData s0 = rows_ba"
    using createTable_ba by blast
  define s1 where "s1 = handle utc_host s0 (HeaderClick 0)"
  have r0: "reachable utc_host rows_ba None s0" using s0(1) by (rule reachable.init)
  have r1: "reachable utc_host rows_ba None s1" unfolding s1_def using r0 by (rule reachable.step)
  have i0: "0 < length (columns s0)" using s0 by simp
  have f1: "sortColumn s1 = Some ''name''" "sortDirection s1 = Asc"
    "currentData s1 = [[(''name'', ''a'')], [(''name'', ''b'')]]"
    using sort_header_click[OF r0 i0] s0 sort_ba unfolding s1_def by (simp_all add: Let_def)
  have c1: "columns s1 = [''name'']" unfolding s1_def using s0 by (simp add: sortClick_def Let_def)
  then have i1: "0 < length (columns s1)" by simp
  have "sortDirection (handle utc_host s1 (HeaderClick 0)) = Desc \<and>
     currentData (handle utc_host s1 (HeaderClick 0)) = [[(''name'', ''b'')], [(''name'', ''a'')]] \<and>
     currentPage (handle utc_host s1 (HeaderClick 0)) = 1"
    using sort_header_click[OF r1 i1] f1 c1 sort_ba by (simp add: Let_def)
  then show ?thesis using r1 i1 f1 by blast
qed

section \<open>Sorting\<close>

lemma set_insert_by [simp]: "set (insert_by cmp x xs) = insert x (set xs)"
  by (induction xs) auto

lemma set_Array_sort [simp]: "set (Array_sort cmp xs) = set xs"
  by (induction xs) (auto simp: Array_sort_def)

lemma Array_sort_Cons: "Array_sort cmp (x # xs) = insert_by cmp x (Array_sort cmp xs)"
  by (simp add: Array_sort_def)

lemma Array_sort_Nil [simp]: "Array_sort cmp [] = []"
  by (simp add: Array_sort_def)

lemma consistent_total:
  "consistent cmp S \<Longrightarrow> a \<in> S \<Longrightarrow> b \<in> S \<Longrightarrow> cmp_le cmp a b \<or> cmp_le cmp b a"
  unfolding consistent_def by fast

lemma consistent_trans:
  "consistent cmp S \<Longrightarrow> a \<in> S \<Longrightarrow> b \<in> S \<Longrightarrow> c \<in> S \<Longrightarrow>
     cmp_le cmp a b \<Longrightarrow> cmp_le cmp b c \<Longrightarrow> cmp_le cmp a c"
  unfolding consistent_def by fast

lemma consistent_subset: "consistent cmp S \<Longrightarrow> T \<subseteq> S \<Longrightarrow> consistent cmp T"
  unfolding consistent_def by (intro conjI ballI impI; elim conjE; meson subsetD)

lemma sorted_insert_by:
  assumes "consistent cmp (insert x (set ys))" "sorted_wrt (cmp_le cmp) ys"
  shows "sorted_wrt (cmp_le cmp) (insert_by cmp x ys)"
  using assms
proof (induction ys)
  case Nil
  then show ?case by simp
next
  case (Cons y ys)
  note con = Cons.prems(1)
  have c: "consistent cmp (insert x (set ys))"
    by (rule consistent_subset[OF con]) auto
  have xs: "x \<in> insert x (set (y # ys))" and ys: "y \<in> insert x (set (y # ys))" by simp_all
  have sy: "\<forall>z\<in>set ys. cmp_le cmp y z" and st: "sorted_wrt (cmp_le cmp) ys"
    using Cons.prems(2) by simp_all
  show ?case
  proof (cases "js_lt (Fin 0) (cmp x y)")
    case True
    then have "\<not> cmp_le cmp x y" by (simp add: cmp_le_def)
    then have yx: "cmp_le cmp y x" using consistent_total[OF con xs ys] by simp
    have "sorted_wrt (cmp_le cmp) (insert_by cmp x ys)" using Cons.IH[OF c st] .
    then show ?thesis using True yx sy by simp
  next
    case False
    then have xy: "cmp_le cmp x y" by (simp add: cmp_le_def)
    have "\<forall>z\<in>set ys. cmp_le cmp x z"
    proof
      fix z assume z: "z \<in> set ys"
      then have zs: "z \<in> insert x (set (y # ys))" by simp
      have "cmp_le cmp y z" using sy z by simp
      then show "cmp_le cmp x z" using consistent_trans[OF con xs ys zs xy] by simp
    qed
    then show ?thesis using False xy sy st by simp
  qed
qed

lemma sorted_Array_sort:
  assumes "consistent cmp (set xs)"
  shows "sorted_wrt (cmp_le cmp) (Array_sort cmp xs)"
  using assms
proof (induction xs)
  case Nil
  then show ?case by simp
next
  case (Cons x xs)
  have c: "consistent cmp (set xs)"
    by (rule consistent_subset[OF Cons.prems]) auto
  have c2: "consistent cmp (insert x (set (Array_sort cmp xs)))"
    using Cons.prems by simp
  show ?case unfolding Array_sort_Cons
    using c2 Cons.IH[OF c] by (rule sorted_insert_by)
qed

lemma Array_sort_sorted:
  "sorted_wrt (cmp_le cmp) xs \<Longrightarrow> Array_sort cmp xs = xs"
proof (induction xs)
  case Nil
  then show ?case by simp
next
  case (Cons x xs)
  then have "Array_sort cmp xs = xs" by simp
  moreover have "insert_by cmp x xs = x # xs"
    using Cons.prems by (cases xs) (auto simp: cmp_le_def)
  ultimately show ?case by (simp add: Array_sort_Cons)
qed

text \<open>
  C2, as amended: sorting again by the same column in the same direction changes nothing
  when the column has the same inferred type in the sorted array as in the original one and
  the comparator of that type is consistent on the rows. (Sorting decides the type anew
  from the first three values of the array it is given, and a comparison with a value that
  does not parse is NaN; the array b, 3, 20, 100 below sorts differently the second time.)
\<close>

theorem sortData_idempotent:
  assumes "getColumnDataType (sortData h dat c d) c = getColumnDataType dat c"
    and "consistent (compareRows h (getColumnDataType dat c) c d) (set dat)"
  shows "sortData h (sortData h dat c d) c d = sortData h dat c d"
proof -
  let ?cmp = "compareRows h (getColumnDataType dat c) c d"
  have "sorted_wrt (cmp_le ?cmp) (Array_sort ?cmp dat)"
    using assms(2) by (rule sorted_Array_sort)
  then have "Array_sort ?cmp (Array_sort ?cmp dat) = Array_sort ?cmp dat"
    by (rule Array_sort_sorted)
  then show ?thesis using assms(1) by (simp add: sortData_def Let_def)
qed

lemma parse_nums: "parseFloat ''3'' = Fin 3" "parseFloat ''20'' = Fin 20" "parseFloat ''100'' = Fin 100"
  by (simp_all add: parseFloat_def unsigned_literal_def is_ws_def is_digit_def digits_val_def
      exponent_part_def fl_numeral)

lemma lower_b3: "toLowerCase ''3'' = ''3''" "toLowerCase ''20'' = ''20''" "toLowerCase ''100'' = ''100''"
  by code_simp+

lemma type_b3: "getColumnDataType rows_b3 ''k'' = TextT"
proof -
  have s: "samples rows_b3 ''k'' = [''b'', ''3'', ''20'']" unfolding rows_b3_def by code_simp
  have d: "\<not> datePattern ''b''" by code_simp
  show ?thesis unfolding getColumnDataType_eq s using d parseFloat_b by simp
qed

lemma sort_b3:
  "sortData utc_host rows_b3 ''k'' Asc = [[(''k'', ''100'')], [(''k'', ''20'')], [(''k'', ''3'')], [(''k'', ''b'')]]"
  unfolding sortData_def type_b3 Let_def
  by (simp add: rows_b3_def Array_sort_def compareRows_def or_empty_def lower_ab lower_b3 utc_host_def)

lemma type_b3_sorted:
  "getColumnDataType [[(''k'', ''100'')], [(''k'', ''20'')], [(''k'', ''3'')], [(''k'', ''b'')]] ''k'' = NumberT"
proof -
  have s: "samples [[(''k'', ''100'')], [(''k'', ''20'')], [(''k'', ''3'')], [(''k'', ''b'')]] ''k''
      = [''100'', ''20'', ''3'']" by code_simp
  have d: "\<not> datePattern ''100''" by code_simp
  show ?thesis unfolding getColumnDataType_eq s using d parse_nums by simp
qed

lemma sort_b3_again:
  "sortData utc_host [[(''k'', ''100'')], [(''k'', ''20'')], [(''k'', ''3'')], [(''k'', ''b'')]] ''k'' Asc
     = [[(''k'', ''3'')], [(''k'', ''20'')], [(''k'', ''100'')], [(''k'', ''b'')]]"
  unfolding sortData_def type_b3_sorted Let_def
  by (simp add: Array_sort_def compareRows_def or_empty_def parse_nums parseFloat_b js_sub_def
      fl_numeral fl_neg_numeral)

theorem sortData_idempotent_counterexample:
  "sortData utc_host (sortData utc_host rows_b3 ''k'' Asc) ''k'' Asc
     \<noteq> sortData utc_host rows_b3 ''k'' Asc"
  unfolding sort_b3 sort_b3_again by simp

lemma consistent_ba:
  "consistent (compareRows utc_host TextT ''name'' Asc) (set rows_ba)"
  by (simp add: consistent_def cmp_le_def rows_ba_def compareRows_def or_empty_def lower_ab
      utc_host_def)

theorem sortData_idempotent_witness:
  "getColumnDataType (sortData utc_host rows_ba ''name'' Asc) ''name''
     = getColumnDataType rows_ba ''name'' \<and>
   consistent (compareRows utc_host (getColumnDataType rows_ba ''name'') ''name'' Asc) (set rows_ba) \<and>
   sortData utc_host (sortData utc_host rows_ba ''name'' Asc) ''name'' Asc
     = [[(''name'', ''a'')], [(''name'', ''b'')]]"
proof -
  have t: "getColumnDataType [[(''name'', ''a'')], [(''name'', ''b'')]] ''name'' = TextT"
  proof -
    have s: "samples [[(''name'', ''a'')], [(''name'', ''b'')]] ''name'' = [''a'', ''b'']"
      by code_simp
    have d: "\<not> datePattern ''a''" by code_simp
    have p: "parseFloat ''a'' = NaN"
      by (simp add: parseFloat_def unsigned_literal_def is_ws_def is_digit_def)
    show ?thesis unfolding getColumnDataType_eq s using d p by simp
  qed
  have 1: "getColumnDataType (sortData utc_host rows_ba ''name'' Asc) ''name''
     = getColumnDataType rows_ba ''name''" unfolding sort_ba t type_ba ..
  have 2: "consistent (compareRows utc_host (getColumnDataType rows_ba ''name'') ''name'' Asc) (set rows_ba)"
    unfolding type_ba by (rule consistent_ba)
  show ?thesis using sortData_idempotent[OF 1 2] 1 2 sort_ba by simp
qed

section \<open>Sorting a column of numbers\<close>




























section \<open>Date cells without a date\<close>

text \<open>
  C10: for every time value, \<open>formatDateTimeValue\<close> of a missing or empty date value is
  the empty string, and so is the rendered cell of a column whose value is missing or
  empty, whatever the time column holds: the time is never shown on its own.
\<close>

theorem formatDateTimeValue_empty_date:
  "formatDateTimeValue h None t = [] \<and> formatDateTimeValue h (Some []) t = [] \<and>
   (falsy (map_of row column) \<longrightarrow> renderCell h allCols row column = [])"
  by (auto simp: formatDateTimeValue_def renderCell_def falsy_def or_empty_def
      formatCellValue_def split: option.splits)

theorem formatDateTimeValue_empty_date_witness:
  "falsy (map_of [(''Event End Date'', []), (''Event End Time'', ''03:00'')] ''Event End Date'') \<and>
   renderCell utc_host [''Event End Date'', ''Event End Time'']
     [(''Event End Date'', []), (''Event End Time'', ''03:00'')] ''Event End Date'' = [] \<and>
   formatDateTimeValue utc_host None (Some ''03:00'') = [] \<and>
   formatDateTimeValue utc_host (Some []) (Some ''03:00'') = []"
  using formatDateTimeValue_empty_date [of utc_host "Some ''03:00''"
      "[(''Event End Date'', []), (''Event End Time'', ''03:00'')]" "''Event End Date''"
      "[''Event End Date'', ''Event End Time'']"]
  by (simp add: falsy_def)

end
